theory Spec2Isabelle
  imports Complex_Main
begin

section \<open>Values and tensors\<close>

text \<open>
  The notebooks compute on PyTorch tensors. A tensor is modelled as PyTorch stores a
  contiguous one: its sizes and its elements in row-major order. The token embeddings
  are \<open>float32\<close>, the attention mask is \<open>int64\<close> (the tokenizer returns it so).

  A float is a finite real number or one of the three special values of IEEE 754.
  The operations of this section compute on finite values exactly, without rounding and
  without overflow; they carry the statements about shapes, about rows of zeros and about
  purity, where every float32 operation is exact or is not looked at. The operations of
  float32, which round and overflow, follow in their own section; the statements about
  the values of sums and quotients are made on them. The special values follow IEEE 754;
  the sign of a zero is not modelled, a zero divisor counts as \<open>+0\<close>.
\<close>

datatype fval = Fin real | PInf | NInf | NaN

fun is_fin :: "fval \<Rightarrow> bool" where
  "is_fin (Fin a) = True"
| "is_fin x = False"

fun rval :: "fval \<Rightarrow> real" where
  "rval (Fin a) = a"
| "rval x = 0"

fun fadd :: "fval \<Rightarrow> fval \<Rightarrow> fval" where
  "fadd (Fin a) (Fin b) = Fin (a + b)"
| "fadd NaN y = NaN"
| "fadd x NaN = NaN"
| "fadd PInf NInf = NaN"
| "fadd NInf PInf = NaN"
| "fadd PInf y = PInf"
| "fadd x PInf = PInf"
| "fadd NInf y = NInf"
| "fadd x NInf = NInf"

fun fmul :: "fval \<Rightarrow> fval \<Rightarrow> fval" where
  "fmul (Fin a) (Fin b) = Fin (a * b)"
| "fmul NaN y = NaN"
| "fmul x NaN = NaN"
| "fmul (Fin a) y = (if a = 0 then NaN else if (0 < a) = (y = PInf) then PInf else NInf)"
| "fmul x (Fin b) = (if b = 0 then NaN else if (0 < b) = (x = PInf) then PInf else NInf)"
| "fmul x y = (if x = y then PInf else NInf)"

fun fdiv :: "fval \<Rightarrow> fval \<Rightarrow> fval" where
  "fdiv (Fin a) (Fin b) =
     (if b \<noteq> 0 then Fin (a / b) else if a = 0 then NaN else if 0 < a then PInf else NInf)"
| "fdiv NaN y = NaN"
| "fdiv x NaN = NaN"
| "fdiv (Fin a) y = Fin 0"
| "fdiv x (Fin b) = (if (0 \<le> b) = (x = PInf) then PInf else NInf)"
| "fdiv x y = NaN"

text \<open>Type promotion of an \<open>int64\<close> element in an operation with a float.\<close>

definition of_mask :: "int \<Rightarrow> fval" where
  "of_mask m = Fin (real_of_int m)"

definition fsum :: "fval list \<Rightarrow> fval" where
  "fsum xs = foldl fadd (Fin 0) xs"

text \<open>
  The exceptions: \<^verbatim>\<open>RuntimeError\<close> and \<^verbatim>\<open>IndexError\<close> are raised by the tensor
  operations; the last one stands for whatever the tokenizer or the encoder raises.
\<close>

datatype error = RuntimeError | IndexError | ExternalCollaboratorFailure

record 'a tensor =
  shape :: "nat list"
  data :: "'a list"

definition well_shaped :: "'a tensor \<Rightarrow> bool" where
  "well_shaped t = (length (data t) = prod_list (shape t))"

text \<open>Row-major offset of a multi-index, and the multi-index of an offset.\<close>

fun ravel :: "nat list \<Rightarrow> nat list \<Rightarrow> nat" where
  "ravel (n # ns) (i # is) = i * prod_list ns + ravel ns is"
| "ravel ns is = 0"

fun unravel :: "nat list \<Rightarrow> nat \<Rightarrow> nat list" where
  "unravel [] k = []"
| "unravel (n # ns) k = (k div prod_list ns) # unravel ns (k mod prod_list ns)"

definition in_range :: "nat list \<Rightarrow> nat list \<Rightarrow> bool" where
  "in_range idx shp = list_all2 (<) idx shp"

definition elem :: "'a tensor \<Rightarrow> nat list \<Rightarrow> 'a" where
  "elem t idx = data t ! ravel (shape t) idx"

definition tabulate :: "nat list \<Rightarrow> (nat list \<Rightarrow> 'a) \<Rightarrow> 'a tensor" where
  "tabulate shp f = \<lparr>shape = shp, data = map (\<lambda>k. f (unravel shp k)) [0..<prod_list shp]\<rparr>"

section \<open>The tensor operations that the source calls\<close>

text \<open>\<^verbatim>\<open>t.unsqueeze(-1)\<close>: a last dimension of size 1, the same elements.\<close>

definition unsqueeze_last :: "'a tensor \<Rightarrow> 'a tensor" where
  "unsqueeze_last t = \<lparr>shape = shape t @ [1], data = data t\<rparr>"

text \<open>
  Broadcasting reads a result index in a source of sizes \<open>shp\<close>: the sizes are aligned
  at the last dimension, and a source dimension of size 1 is read at 0.
\<close>

definition bidx :: "nat \<Rightarrow> nat \<Rightarrow> nat" where
  "bidx n i = (if n = 1 then 0 else i)"

definition bsrc :: "nat list \<Rightarrow> nat list \<Rightarrow> nat list" where
  "bsrc shp idx = map2 bidx shp (drop (length idx - length shp) idx)"

text \<open>
  \<^verbatim>\<open>t.expand(sizes)\<close>: every dimension of \<open>t\<close> has the requested size or size 1, new
  dimensions are added in front; anything else raises \<^verbatim>\<open>RuntimeError\<close>.
\<close>

definition expandable :: "nat list \<Rightarrow> nat list \<Rightarrow> bool" where
  "expandable shp sz =
     (length shp \<le> length sz \<and>
      list_all2 (\<lambda>n m. n = m \<or> n = 1) shp (drop (length sz - length shp) sz))"

definition expand :: "'a tensor \<Rightarrow> nat list \<Rightarrow> error + 'a tensor" where
  "expand t sz =
     (if expandable (shape t) sz
      then Inr (tabulate sz (\<lambda>idx. elem t (bsrc (shape t) idx)))
      else Inl RuntimeError)"

text \<open>The sizes of the result of an elementwise operation, last dimension first.\<close>

fun bshape_rev :: "nat list \<Rightarrow> nat list \<Rightarrow> nat list option" where
  "bshape_rev [] ys = Some ys"
| "bshape_rev xs [] = Some xs"
| "bshape_rev (x # xs) (y # ys) =
     (if x = y \<or> y = 1 then map_option ((#) x) (bshape_rev xs ys)
      else if x = 1 then map_option ((#) y) (bshape_rev xs ys)
      else None)"

definition broadcast_shapes :: "nat list \<Rightarrow> nat list \<Rightarrow> nat list option" where
  "broadcast_shapes a b = map_option rev (bshape_rev (rev a) (rev b))"

text \<open>An elementwise binary operation (\<^verbatim>\<open>a * b\<close>, \<^verbatim>\<open>a / b\<close>) with broadcasting.\<close>

definition binop :: "('a \<Rightarrow> 'b \<Rightarrow> 'c) \<Rightarrow> 'a tensor \<Rightarrow> 'b tensor \<Rightarrow> error + 'c tensor" where
  "binop f a b =
     (case broadcast_shapes (shape a) (shape b) of
        None \<Rightarrow> Inl RuntimeError
      | Some shp \<Rightarrow>
          Inr (tabulate shp (\<lambda>idx. f (elem a (bsrc (shape a) idx)) (elem b (bsrc (shape b) idx)))))"

text \<open>
  \<^verbatim>\<open>torch.sum(t, d)\<close> and \<^verbatim>\<open>t.sum(d)\<close>: dimension \<open>d\<close> is summed away; a dimension
  that \<open>t\<close> does not have raises \<^verbatim>\<open>IndexError\<close>.
\<close>

definition sum_dim :: "('a \<Rightarrow> 'a \<Rightarrow> 'a) \<Rightarrow> 'a \<Rightarrow> 'a tensor \<Rightarrow> nat \<Rightarrow> error + 'a tensor" where
  "sum_dim add z t d =
     (if d < length (shape t)
      then Inr (tabulate (take d (shape t) @ drop (Suc d) (shape t))
             (\<lambda>idx. foldl add z
                      (map (\<lambda>j. elem t (take d idx @ j # drop d idx)) [0..<shape t ! d])))
      else Inl IndexError)"

text \<open>
  \<^verbatim>\<open>torch.clamp(t, min=m)\<close> of an \<open>int64\<close> tensor with a float bound: PyTorch
  promotes the tensor's element type and the bound's type to float, so the result is a
  float tensor, each element the larger of the element and the bound. (The source does not
  convert the mask with \<^verbatim>\<open>.float()\<close>; the floor \<open>1e-9\<close> relies on this promotion.)
\<close>

definition clamp_min :: "int tensor \<Rightarrow> real \<Rightarrow> fval tensor" where
  "clamp_min t m = \<lparr>shape = shape t, data = map (\<lambda>x. Fin (max (real_of_int x) m)) (data t)\<rparr>"

section \<open>Masked mean pooling\<close>

text \<open>
  \<^verbatim>\<open>mean_pooling(self, token_embeddings, attention_mask)\<close>, the same text in both
  classes (\<^verbatim>\<open>SentenceTransformer\<close> and \<^verbatim>\<open>SentenceClassificationTransformer\<close>); it
  does not use \<^verbatim>\<open>self\<close>.
\<close>

definition eps :: real where
  "eps = 1 / 10 ^ 9"

definition mean_pooling :: "fval tensor \<Rightarrow> int tensor \<Rightarrow> error + fval tensor" where
  "mean_pooling token_embeddings attention_mask =
     (case expand (unsqueeze_last attention_mask) (shape token_embeddings) of
        Inl e \<Rightarrow> Inl e
      | Inr input_mask_expanded \<Rightarrow>
     (case binop (\<lambda>x m. fmul x (of_mask m)) token_embeddings input_mask_expanded of
        Inl e \<Rightarrow> Inl e
      | Inr masked \<Rightarrow>
     (case sum_dim fadd (Fin 0) masked 1 of
        Inl e \<Rightarrow> Inl e
      | Inr sum_embeddings \<Rightarrow>
     (case sum_dim (+) 0 input_mask_expanded 1 of
        Inl e \<Rightarrow> Inl e
      | Inr mask_sum \<Rightarrow>
          binop fdiv sum_embeddings (clamp_min mask_sum eps)))))"

section \<open>Masked mean pooling on tensor objects\<close>

text \<open>
  Python passes tensors by reference, and an operation either returns a new tensor object
  or writes into an existing one (the operations with a trailing underscore). To state
  what \<^verbatim>\<open>mean_pooling\<close> does to its arguments, the same function is given once more on
  references: the store holds the float tensors and the \<open>int64\<close> tensors that exist, a
  reference is an index into it, and every operation that the source calls
  (\<^verbatim>\<open>unsqueeze\<close>, \<^verbatim>\<open>expand\<close>, \<^verbatim>\<open>*\<close>, \<^verbatim>\<open>torch.sum\<close>, \<^verbatim>\<open>sum\<close>,
  \<^verbatim>\<open>torch.clamp\<close>, \<^verbatim>\<open>/\<close>) returns a new object. The two views (\<^verbatim>\<open>unsqueeze\<close>,
  \<^verbatim>\<open>expand\<close>) share the mask's elements in PyTorch; they are new objects here, with the
  elements that reading through the view gives.
\<close>

record store =
  ftensors :: "fval tensor list"
  itensors :: "int tensor list"

definition new_f :: "fval tensor \<Rightarrow> store \<Rightarrow> nat \<times> store" where
  "new_f t s = (length (ftensors s), s\<lparr>ftensors := ftensors s @ [t]\<rparr>)"

definition new_i :: "int tensor \<Rightarrow> store \<Rightarrow> nat \<times> store" where
  "new_i t s = (length (itensors s), s\<lparr>itensors := itensors s @ [t]\<rparr>)"

definition mean_pooling_refs :: "nat \<Rightarrow> nat \<Rightarrow> store \<Rightarrow> error + nat \<times> store" where
  "mean_pooling_refs token_embeddings attention_mask s =
     (case new_i (unsqueeze_last (itensors s ! attention_mask)) s of (unsqueezed, s1) \<Rightarrow>
     (case expand (itensors s1 ! unsqueezed) (shape (ftensors s1 ! token_embeddings)) of
        Inl e \<Rightarrow> Inl e
      | Inr x \<Rightarrow>
     (case new_i x s1 of (input_mask_expanded, s2) \<Rightarrow>
     (case binop (\<lambda>x m. fmul x (of_mask m))
             (ftensors s2 ! token_embeddings) (itensors s2 ! input_mask_expanded) of
        Inl e \<Rightarrow> Inl e
      | Inr x \<Rightarrow>
     (case new_f x s2 of (masked, s3) \<Rightarrow>
     (case sum_dim fadd (Fin 0) (ftensors s3 ! masked) 1 of
        Inl e \<Rightarrow> Inl e
      | Inr x \<Rightarrow>
     (case new_f x s3 of (sum_embeddings, s4) \<Rightarrow>
     (case sum_dim (+) 0 (itensors s4 ! input_mask_expanded) 1 of
        Inl e \<Rightarrow> Inl e
      | Inr x \<Rightarrow>
     (case new_i x s4 of (mask_sum, s5) \<Rightarrow>
     (case new_f (clamp_min (itensors s5 ! mask_sum) eps) s5 of (sum_mask, s6) \<Rightarrow>
     (case binop fdiv (ftensors s6 ! sum_embeddings) (ftensors s6 ! sum_mask) of
        Inl e \<Rightarrow> Inl e
      | Inr x \<Rightarrow> Inr (new_f x s6))))))))))))"

text \<open>The embeddings with the hidden dimension (the last one) read through \<open>p\<close>.\<close>

definition reindex_last :: "(nat \<Rightarrow> nat) \<Rightarrow> 'a tensor \<Rightarrow> 'a tensor" where
  "reindex_last p t = tabulate (shape t) (\<lambda>idx. elem t (butlast idx @ [p (last idx)]))"

section \<open>The arithmetic of float32\<close>

text \<open>
  The functions above compute on finite values exactly. Where a claim depends on what a
  float32 operation returns, the operations below are used: IEEE 754 binary32, each
  operation rounded to nearest with ties to even. A finite float32 value is
  \<open>m * 2\<^sup>n / 2\<^sup>1\<^sup>4\<^sup>9\<close> with an integer \<open>m\<close> of magnitude below \<open>2\<^sup>2\<^sup>4\<close> and \<open>n\<close> from 0 to
  253 (the unit in the last place is \<open>2\<^sup>n\<^sup>-\<^sup>1\<^sup>4\<^sup>9\<close>, from \<open>2\<^sup>-\<^sup>1\<^sup>4\<^sup>9\<close> for subnormal numbers
  to \<open>2\<^sup>1\<^sup>0\<^sup>4\<close>); a result of magnitude \<open>2\<^sup>1\<^sup>2\<^sup>8\<close> or more after rounding is an
  infinity. The sign of a zero is not modelled.
\<close>

text \<open>Rounding to the nearest integer, a tie to the even one.\<close>

definition rne :: "real \<Rightarrow> int" where
  "rne y =
     (let f = \<lfloor>y\<rfloor>; d = y - real_of_int f
      in if d < 1 / 2 then f else if 1 / 2 < d then f + 1 else if even f then f else f + 1)"

text \<open>
  The exponent of the unit in the last place of \<open>x\<close>, counted from \<open>-149\<close>: the least
  \<open>n\<close> with \<open>\<bar>x\<bar> * 2\<^sup>1\<^sup>4\<^sup>9 < 2\<^sup>n\<^sup>+\<^sup>2\<^sup>4\<close>, searched upwards from \<open>n\<close> in \<open>fuel\<close> steps.
\<close>

fun ulp_from :: "nat \<Rightarrow> nat \<Rightarrow> real \<Rightarrow> nat option" where
  "ulp_from 0 n X = None"
| "ulp_from (Suc fuel) n X = (if X < 2 ^ (n + 24) then Some n else ulp_from fuel (Suc n) X)"

definition round32 :: "real \<Rightarrow> fval" where
  "round32 x =
     (case ulp_from 254 0 (\<bar>x\<bar> * 2 ^ 149) of
        None \<Rightarrow> if 0 < x then PInf else NInf
      | Some n \<Rightarrow>
          (let y = real_of_int (rne (x * 2 ^ 149 / 2 ^ n)) * 2 ^ n / 2 ^ 149
           in if 2 ^ 128 \<le> \<bar>y\<bar> then (if 0 < x then PInf else NInf) else Fin y))"

text \<open>
  The finite values of float32: \<open>f32_real\<close> describes them, \<open>is_f32\<close> tests a value by
  rounding it (the two agree, see \<open>is_f32_iff\<close> below).
\<close>

definition f32_real :: "real \<Rightarrow> bool" where
  "f32_real r = (\<exists>m k. r = real_of_int m * 2 ^ k / 2 ^ 149 \<and> \<bar>m\<bar> < 2 ^ 24 \<and> k \<le> (253::nat))"

definition is_f32 :: "fval \<Rightarrow> bool" where
  "is_f32 v = (case v of Fin a \<Rightarrow> round32 a = Fin a | _ \<Rightarrow> False)"

definition add32 :: "fval \<Rightarrow> fval \<Rightarrow> fval" where
  "add32 x y = (case (x, y) of (Fin a, Fin b) \<Rightarrow> round32 (a + b) | _ \<Rightarrow> fadd x y)"

definition mul32 :: "fval \<Rightarrow> fval \<Rightarrow> fval" where
  "mul32 x y = (case (x, y) of (Fin a, Fin b) \<Rightarrow> round32 (a * b) | _ \<Rightarrow> fmul x y)"

definition div32 :: "fval \<Rightarrow> fval \<Rightarrow> fval" where
  "div32 x y =
     (case (x, y) of
        (Fin a, Fin b) \<Rightarrow> if b = 0 then fdiv x y else round32 (a / b)
      | _ \<Rightarrow> fdiv x y)"

text \<open>The conversion of an \<open>int64\<close> element to float32.\<close>

definition of_mask32 :: "int \<Rightarrow> fval" where
  "of_mask32 m = round32 (real_of_int m)"

text \<open>The unit roundoff of float32 and the float32 value of \<open>1e-9\<close>.\<close>

definition u32 :: real where
  "u32 = 1 / 2 ^ 24"

definition eps32 :: real where
  "eps32 = 9007199 / 2 ^ 53"

text \<open>
  \<^verbatim>\<open>torch.clamp(t, min=m)\<close> of an \<open>int64\<close> tensor in float32: the elements are converted
  to float32 and compared with the float32 value of the bound.
\<close>

definition clamp_min32 :: "int tensor \<Rightarrow> real \<Rightarrow> fval tensor" where
  "clamp_min32 t m =
     \<lparr>shape = shape t,
      data = map (\<lambda>x. case of_mask32 x of Fin r \<Rightarrow> Fin (max r m) | v \<Rightarrow> v) (data t)\<rparr>"

text \<open>
  \<^verbatim>\<open>mean_pooling\<close> with the arithmetic of float32. \<^verbatim>\<open>torch.sum\<close> adds the elements
  in the order of the index; the library does not specify the order.
\<close>

definition mean_pooling_f32 :: "fval tensor \<Rightarrow> int tensor \<Rightarrow> error + fval tensor" where
  "mean_pooling_f32 token_embeddings attention_mask =
     (case expand (unsqueeze_last attention_mask) (shape token_embeddings) of
        Inl e \<Rightarrow> Inl e
      | Inr input_mask_expanded \<Rightarrow>
     (case binop (\<lambda>x m. mul32 x (of_mask32 m)) token_embeddings input_mask_expanded of
        Inl e \<Rightarrow> Inl e
      | Inr masked \<Rightarrow>
     (case sum_dim add32 (Fin 0) masked 1 of
        Inl e \<Rightarrow> Inl e
      | Inr sum_embeddings \<Rightarrow>
     (case sum_dim (+) 0 input_mask_expanded 1 of
        Inl e \<Rightarrow> Inl e
      | Inr mask_sum \<Rightarrow>
          binop div32 sum_embeddings (clamp_min32 mask_sum eps32)))))"

section \<open>The two models and their forward passes\<close>

text \<open>
  The tokenizer and the pre-trained encoder are external collaborators. Each is a
  parameter here: \<open>tok t sentences\<close> is what the tokenizer \<open>t\<close> returns for the
  sentences (\<^verbatim>\<open>inputs\<close>), \<open>enc e inputs\<close> is the \<^verbatim>\<open>last_hidden_state\<close> that the encoder
  with the parameters \<open>e\<close> returns, or the error that the call raises.
\<close>

record batch_encoding =
  input_ids :: "int tensor"
  attention_mask :: "int tensor"

type_synonym 't tokenizer_call = "'t \<Rightarrow> string list \<Rightarrow> error + batch_encoding"

type_synonym 'e encoder_call = "'e \<Rightarrow> batch_encoding \<Rightarrow> error + fval tensor"

text \<open>\<^verbatim>\<open>class SentenceTransformer\<close>: the attributes that \<^verbatim>\<open>__init__\<close> sets.\<close>

record ('t, 'e) sentence_transformer =
  encoder :: 'e
  tokenizer :: 't

text \<open>\<^verbatim>\<open>SentenceTransformer.forward(self, sentences)\<close>\<close>

definition forward ::
  "'t tokenizer_call \<Rightarrow> 'e encoder_call \<Rightarrow> ('t, 'e, 'z) sentence_transformer_scheme \<Rightarrow> string list
     \<Rightarrow> error + fval tensor" where
  "forward tok enc self sentences =
     (case tok (tokenizer self) sentences of
        Inl e \<Rightarrow> Inl e
      | Inr inputs \<Rightarrow>
          (case enc (encoder self) inputs of
             Inl e \<Rightarrow> Inl e
           | Inr last_hidden_state \<Rightarrow>
               mean_pooling_f32 last_hidden_state (attention_mask inputs)))"

text \<open>
  \<^verbatim>\<open>nn.Linear(in_features, out_features)\<close>: a weight of shape
  \<open>(out_features, in_features)\<close> and a bias of shape \<open>(out_features)\<close>, with initial
  values that the library draws at random (\<open>w_init\<close> and \<open>b_init\<close> stand for the
  draws). Applied to \<open>x\<close> it computes \<open>x \<cdot> weight\<^sup>T + bias\<close> over the last
  dimension of \<open>x\<close>, in float32: every product and every sum is rounded. The products
  of one output element are summed in the order of the index; the library does not
  specify the order.
\<close>

record linear =
  weight :: "fval tensor"
  bias :: "fval tensor"

definition nn_Linear :: "nat \<Rightarrow> nat \<Rightarrow> (nat list \<Rightarrow> fval) \<Rightarrow> (nat list \<Rightarrow> fval) \<Rightarrow> linear" where
  "nn_Linear in_features out_features w_init b_init =
     \<lparr>weight = tabulate [out_features, in_features] w_init,
      bias = tabulate [out_features] b_init\<rparr>"

definition is_linear :: "nat \<Rightarrow> nat \<Rightarrow> linear \<Rightarrow> bool" where
  "is_linear in_features out_features l =
     (shape (weight l) = [out_features, in_features] \<and> well_shaped (weight l) \<and>
      shape (bias l) = [out_features] \<and> well_shaped (bias l))"

definition matmul_t :: "fval tensor \<Rightarrow> fval tensor \<Rightarrow> error + fval tensor" where
  "matmul_t x w =
     (case shape w of
        [c, k] \<Rightarrow>
          if shape x \<noteq> [] \<and> last (shape x) = k
          then Inr (tabulate (butlast (shape x) @ [c])
                 (\<lambda>idx. foldl add32 (Fin 0)
                          (map (\<lambda>j. mul32 (elem x (butlast idx @ [j])) (elem w [last idx, j]))
                             [0..<k])))
          else Inl RuntimeError
      | _ \<Rightarrow> Inl RuntimeError)"

definition linear_fwd :: "linear \<Rightarrow> fval tensor \<Rightarrow> error + fval tensor" where
  "linear_fwd l x =
     (case matmul_t x (weight l) of
        Inl e \<Rightarrow> Inl e
      | Inr y \<Rightarrow> binop add32 y (bias l))"

text \<open>
  \<^verbatim>\<open>class SentenceClassificationTransformer\<close>: the encoder and the tokenizer as before,
  and \<^verbatim>\<open>classifier = nn.Linear(hidden_size, num_classes)\<close>. The attribute
  \<^verbatim>\<open>pooling\<close> is set and never used; it has no parameters.
\<close>

record ('t, 'e) sentence_classification_transformer = "('t, 'e) sentence_transformer" +
  classifier :: linear

text \<open>
  \<^verbatim>\<open>SentenceClassificationTransformer.__init__\<close>: \<open>enc\<close> and \<open>tok\<close> are what
  \<^verbatim>\<open>from_pretrained\<close> loads, \<open>hidden_size\<close> is \<^verbatim>\<open>encoder.config.hidden_size\<close>.
\<close>

definition SentenceClassificationTransformer ::
  "'e \<Rightarrow> 't \<Rightarrow> nat \<Rightarrow> nat \<Rightarrow> (nat list \<Rightarrow> fval) \<Rightarrow> (nat list \<Rightarrow> fval)
     \<Rightarrow> ('t, 'e) sentence_classification_transformer" where
  "SentenceClassificationTransformer enc tok hidden_size num_classes w_init b_init =
     \<lparr>encoder = enc, tokenizer = tok,
      classifier = nn_Linear hidden_size num_classes w_init b_init\<rparr>"

text \<open>\<^verbatim>\<open>SentenceClassificationTransformer.forward(self, sentences)\<close>\<close>

definition classification_forward ::
  "'t tokenizer_call \<Rightarrow> 'e encoder_call \<Rightarrow> ('t, 'e) sentence_classification_transformer
     \<Rightarrow> string list \<Rightarrow> error + fval tensor" where
  "classification_forward tok enc self sentences =
     (case tok (tokenizer self) sentences of
        Inl e \<Rightarrow> Inl e
      | Inr inputs \<Rightarrow>
          (case enc (encoder self) inputs of
             Inl e \<Rightarrow> Inl e
           | Inr last_hidden_state \<Rightarrow>
               (case mean_pooling_f32 last_hidden_state (attention_mask inputs) of
                  Inl e \<Rightarrow> Inl e
                | Inr pooled_output \<Rightarrow> linear_fwd (classifier self) pooled_output)))"

section \<open>The script of the second notebook\<close>

text \<open>The inputs that the notebooks hard-code.\<close>

definition sample_sentences :: "string list" where
  "sample_sentences = [''This is a test sentence.'', ''Sentence transformers generate embeddings.'']"

definition sentence_labels :: "int tensor" where
  "sentence_labels = \<lparr>shape = [2], data = [0, 1]\<rparr>"

text \<open>
  The parameter tensors of the model, as \<^verbatim>\<open>model.parameters()\<close> lists them: those of
  the sub-modules that \<^verbatim>\<open>__init__\<close> registers, which are the encoder's, and the weight
  \<open>W\<close> and the bias \<open>b\<close> of the classifier (the tokenizer is not a module, the pooling
  module has no parameters). The encoder's parameters are taken as one group. All of them
  require gradients: this is what \<^verbatim>\<open>from_pretrained\<close> and \<^verbatim>\<open>nn.Linear\<close> give, and the
  script freezes none.
\<close>

datatype param = EncoderParameters | ClassifierWeight | ClassifierBias

definition parameters :: "param list" where
  "parameters = [EncoderParameters, ClassifierWeight, ClassifierBias]"

text \<open>
  \<^verbatim>\<open>optim.AdamW(params, lr=lr)\<close>: the optimizer keeps the parameters it was made for,
  the learning rate, and its own state (step count and moment estimates).
\<close>

record 'o optimizer =
  params :: "param list"
  lr :: real
  opt_state :: 'o

definition AdamW :: "param list \<Rightarrow> real \<Rightarrow> 'o \<Rightarrow> 'o optimizer" where
  "AdamW ps rate s = \<lparr>params = ps, lr = rate, opt_state = s\<rparr>"

text \<open>
  The training step, lines 98 to 106 of the script. What the script holds between its
  statements: the model (its parameters \<open>W\<close>, \<open>b\<close> and the encoder's are in it), for
  every parameter the gradient accumulated in its \<^verbatim>\<open>.grad\<close> (\<open>None\<close> when cleared or
  never set), the optimizer, and, for the order of the operations, the list of the
  operations performed so far.

  The loss function, automatic differentiation and the optimizer's update are the
  library's and are parameters: \<open>loss_fn\<close> is \<^verbatim>\<open>nn.CrossEntropyLoss()\<close>;
  \<open>autograd f m p\<close> is the gradient at the model \<open>m\<close>, with respect to the parameter \<open>p\<close>,
  of \<open>f\<close>, a loss as a function of the model; \<open>gadd\<close> adds two gradients; \<open>opt_step\<close> is
  one update of AdamW from the gradients of its parameters.
\<close>

datatype op = Forward | Loss | ZeroGrad | Backward | OptimizerStep

record ('m, 'g, 'o) script_state =
  model :: 'm
  grad :: "param \<Rightarrow> 'g option"
  optimizer :: "'o optimizer"
  trace :: "op list"

text \<open>\<^verbatim>\<open>optimizer.zero_grad()\<close>: clears \<^verbatim>\<open>.grad\<close> of the optimizer's parameters.\<close>

definition zero_grad :: "('m, 'g, 'o) script_state \<Rightarrow> ('m, 'g, 'o) script_state" where
  "zero_grad st =
     st\<lparr>grad := (\<lambda>p. if p \<in> set (params (optimizer st)) then None else grad st p),
        trace := trace st @ [ZeroGrad]\<rparr>"

text \<open>
  \<^verbatim>\<open>classification_loss.backward()\<close>: for every parameter \<open>p\<close> that the loss was
  computed from, the gradient \<open>g p\<close> of the loss is added to what \<^verbatim>\<open>.grad\<close> holds, or
  stored when it holds nothing. These are all three: the loss is computed from the logits,
  the logits by the classifier (from \<open>W\<close> and \<open>b\<close>) from the pooled output of the encoder
  (from its parameters), and no part of the forward pass runs under
  \<^verbatim>\<open>torch.no_grad()\<close>.
\<close>

definition backward ::
  "(param \<Rightarrow> 'g) \<Rightarrow> ('g \<Rightarrow> 'g \<Rightarrow> 'g) \<Rightarrow> ('m, 'g, 'o) script_state \<Rightarrow> ('m, 'g, 'o) script_state" where
  "backward g gadd st =
     st\<lparr>grad := (\<lambda>p. Some (case grad st p of None \<Rightarrow> g p | Some g0 \<Rightarrow> gadd g0 (g p))),
        trace := trace st @ [Backward]\<rparr>"

text \<open>
  \<^verbatim>\<open>optimizer.step()\<close>: one update of the optimizer's parameters, each from the
  gradient that its \<^verbatim>\<open>.grad\<close> holds.
\<close>

definition step ::
  "('o optimizer \<Rightarrow> (param \<Rightarrow> 'g option) \<Rightarrow> 'm \<Rightarrow> 'm \<times> 'o optimizer)
     \<Rightarrow> ('m, 'g, 'o) script_state \<Rightarrow> ('m, 'g, 'o) script_state" where
  "step opt_step st =
     (case opt_step (optimizer st)
             (\<lambda>p. if p \<in> set (params (optimizer st)) then grad st p else None) (model st) of
        (m', o') \<Rightarrow> st\<lparr>model := m', optimizer := o', trace := trace st @ [OptimizerStep]\<rparr>)"

text \<open>
  The state after lines 83 to 90: the model \<open>m\<close> just made, no gradient yet, and the
  optimizer made for \<^verbatim>\<open>model.parameters()\<close> with the learning rate \<open>5e-5\<close>.
\<close>

definition script_init :: "'m \<Rightarrow> 'o \<Rightarrow> ('m, 'g, 'o) script_state" where
  "script_init m s =
     \<lparr>model = m, grad = (\<lambda>p. None), optimizer = AdamW parameters (5 / 10 ^ 5) s, trace = []\<rparr>"

text \<open>
  Lines 98 and 101 as a function of the model: the loss of the model on the sample
  sentences and their labels. This is what \<^verbatim>\<open>classification_loss\<close> was computed by, and
  what \<^verbatim>\<open>backward\<close> differentiates.
\<close>

definition script_loss ::
  "'t tokenizer_call \<Rightarrow> 'e encoder_call \<Rightarrow> (fval tensor \<Rightarrow> int tensor \<Rightarrow> error + fval)
     \<Rightarrow> ('t, 'e) sentence_classification_transformer \<Rightarrow> error + fval" where
  "script_loss tok enc loss_fn m =
     (case classification_forward tok enc m sample_sentences of
        Inl e \<Rightarrow> Inl e
      | Inr class_logits \<Rightarrow> loss_fn class_logits sentence_labels)"

definition training_step ::
  "'t tokenizer_call \<Rightarrow> 'e encoder_call \<Rightarrow> (fval tensor \<Rightarrow> int tensor \<Rightarrow> error + fval)
     \<Rightarrow> ((('t, 'e) sentence_classification_transformer \<Rightarrow> error + fval)
           \<Rightarrow> ('t, 'e) sentence_classification_transformer \<Rightarrow> param \<Rightarrow> 'g)
     \<Rightarrow> ('g \<Rightarrow> 'g \<Rightarrow> 'g)
     \<Rightarrow> ('o optimizer \<Rightarrow> (param \<Rightarrow> 'g option) \<Rightarrow> ('t, 'e) sentence_classification_transformer
           \<Rightarrow> ('t, 'e) sentence_classification_transformer \<times> 'o optimizer)
     \<Rightarrow> (('t, 'e) sentence_classification_transformer, 'g, 'o) script_state
     \<Rightarrow> error + fval tensor \<times> fval \<times> (('t, 'e) sentence_classification_transformer, 'g, 'o) script_state" where
  "training_step tok enc loss_fn autograd gadd opt_step st =
     (case classification_forward tok enc (model st) sample_sentences of
        Inl e \<Rightarrow> Inl e
      | Inr class_logits \<Rightarrow>
          (let st1 = st\<lparr>trace := trace st @ [Forward]\<rparr> in
           case loss_fn class_logits sentence_labels of
             Inl e \<Rightarrow> Inl e
           | Inr classification_loss \<Rightarrow>
               (let st2 = st1\<lparr>trace := trace st1 @ [Loss]\<rparr>;
                    st3 = zero_grad st2;
                    st4 = backward (autograd (script_loss tok enc loss_fn) (model st)) gadd st3;
                    st5 = step opt_step st4
                in Inr (class_logits, classification_loss, st5))))"

section \<open>Stand-ins for the collaborators, for concrete runs\<close>

text \<open>
  A tokenizer that gives every sentence two tokens and masks none, and an encoder with
  hidden size 2 that returns the same hidden states for every token.
\<close>

definition stub_tokenizer :: "unit tokenizer_call" where
  "stub_tokenizer t sentences =
     Inr \<lparr>input_ids = \<lparr>shape = [length sentences, 2], data = replicate (length sentences * 2) 7\<rparr>,
          attention_mask = \<lparr>shape = [length sentences, 2], data = replicate (length sentences * 2) 1\<rparr>\<rparr>"

definition stub_encoder :: "unit encoder_call" where
  "stub_encoder e inputs =
     Inr \<lparr>shape = shape (input_ids inputs) @ [2],
          data = concat (map (\<lambda>i. [Fin 1, Fin 3]) (data (input_ids inputs)))\<rparr>"

definition stub_model :: "(unit, unit) sentence_classification_transformer" where
  "stub_model =
     \<lparr>encoder = (), tokenizer = (),
      classifier = \<lparr>weight = \<lparr>shape = [3, 2], data = [Fin 1, Fin 0, Fin 0, Fin 1, Fin 1, Fin 1]\<rparr>,
                    bias = \<lparr>shape = [3], data = [Fin 0, Fin 0, Fin 1]\<rparr>\<rparr>\<rparr>"

text \<open>
  The same with one class, the weight \<open>[1 + 2\<^sup>-\<^sup>2\<^sup>3, 0]\<close> and the bias 1.
\<close>

definition stub_model_one_class :: "(unit, unit) sentence_classification_transformer" where
  "stub_model_one_class =
     \<lparr>encoder = (), tokenizer = (),
      classifier = \<lparr>weight = \<lparr>shape = [1, 2], data = [Fin (8388609 / 8388608), Fin 0]\<rparr>,
                    bias = \<lparr>shape = [1], data = [Fin 1]\<rparr>\<rparr>\<rparr>"

text \<open>
  Stand-ins for a concrete run of the script: a loss that is always 1, gradients that are
  the numbers 1, 2 and 3 for the encoder's parameters, \<open>W\<close> and \<open>b\<close> where the loss has
  a value (and 0 where it raises), and an update that
  leaves the parameters and records in the optimizer's state the gradients it was given.
  The run starts with a gradient left over (5) in every parameter.
\<close>

definition stub_loss :: "fval tensor \<Rightarrow> int tensor \<Rightarrow> error + fval" where
  "stub_loss logits labels = Inr (Fin 1)"

definition stub_autograd ::
  "((unit, unit) sentence_classification_transformer \<Rightarrow> error + fval)
     \<Rightarrow> (unit, unit) sentence_classification_transformer \<Rightarrow> param \<Rightarrow> int" where
  "stub_autograd f m p =
     (case f m of
        Inl e \<Rightarrow> 0
      | Inr l \<Rightarrow> (case p of EncoderParameters \<Rightarrow> 1 | ClassifierWeight \<Rightarrow> 2 | ClassifierBias \<Rightarrow> 3))"

definition stub_opt_step ::
  "int option list optimizer \<Rightarrow> (param \<Rightarrow> int option) \<Rightarrow> (unit, unit) sentence_classification_transformer
     \<Rightarrow> (unit, unit) sentence_classification_transformer \<times> int option list optimizer" where
  "stub_opt_step opt g m = (m, opt\<lparr>opt_state := opt_state opt @ map g (params opt)\<rparr>)"

definition stub_state ::
  "((unit, unit) sentence_classification_transformer, int, int option list) script_state" where
  "stub_state = (script_init stub_model [])\<lparr>grad := (\<lambda>p. Some 5)\<rparr>"

section \<open>Indexing and the operations, elementwise\<close>

lemma ravel_less: "in_range idx shp \<Longrightarrow> ravel shp idx < prod_list shp"
  unfolding in_range_def
proof (induction idx shp rule: list_all2_induct)
  case Nil
  then show ?case by simp
next
  case (Cons i idx n shp)
  have "i * prod_list shp + ravel shp idx < i * prod_list shp + prod_list shp"
    using Cons.IH by simp
  also have "\<dots> = Suc i * prod_list shp" by simp
  also have "\<dots> \<le> n * prod_list shp"
    using Cons.hyps(1) by (intro mult_le_mono1) simp
  finally show ?case by simp
qed

lemma unravel_ravel: "in_range idx shp \<Longrightarrow> unravel shp (ravel shp idx) = idx"
  unfolding in_range_def
proof (induction idx shp rule: list_all2_induct)
  case Nil
  then show ?case by simp
next
  case (Cons i idx n shp)
  have r: "ravel shp idx < prod_list shp"
    using Cons.hyps(2) ravel_less by (simp add: in_range_def)
  then show ?case using Cons.IH by simp
qed

lemma shape_tabulate [simp]: "shape (tabulate shp f) = shp"
  by (simp add: tabulate_def)

lemma well_shaped_tabulate [simp]: "well_shaped (tabulate shp f)"
  by (simp add: tabulate_def well_shaped_def)

lemma elem_tabulate: "in_range idx shp \<Longrightarrow> elem (tabulate shp f) idx = f idx"
  using ravel_less [of idx shp] unravel_ravel [of idx shp]
  by (simp add: elem_def tabulate_def)

lemma in_range_simps [simp]:
  "in_range [] [] = True"
  "in_range (i # idx) (n # shp) = (i < n \<and> in_range idx shp)"
  "in_range [] (n # shp) = False"
  "in_range (i # idx) [] = False"
  by (simp_all add: in_range_def)

lemma bsrc_same: "in_range idx shp \<Longrightarrow> bsrc shp idx = idx"
proof -
  assume a: "in_range idx shp"
  then have len: "length idx = length shp"
    by (simp add: in_range_def list_all2_lengthD)
  from a have "map2 bidx shp idx = idx"
    unfolding in_range_def by (induction idx shp rule: list_all2_induct) (auto simp: bidx_def)
  then show ?thesis by (simp add: bsrc_def len)
qed

lemma bshape_rev_same: "bshape_rev xs xs = Some xs"
  by (induction xs) auto

lemma broadcast_shapes_same [simp]: "broadcast_shapes s s = Some s"
  by (simp add: broadcast_shapes_def bshape_rev_same)

lemma binop_same:
  "shape a = shape b \<Longrightarrow>
   binop f a b = Inr (tabulate (shape a) (\<lambda>idx. f (elem a (bsrc (shape a) idx)) (elem b (bsrc (shape a) idx))))"
  by (simp add: binop_def)

lemma sum_dim_3d:
  "shape t = [B, T, H] \<Longrightarrow>
   sum_dim add z t 1 =
     Inr (tabulate [B, H] (\<lambda>idx. foldl add z (map (\<lambda>j. elem t (take 1 idx @ j # drop 1 idx)) [0..<T])))"
  by (simp add: sum_dim_def)

lemma elem_clamp_min:
  "well_shaped t \<Longrightarrow> in_range idx (shape t) \<Longrightarrow>
   elem (clamp_min t m) idx = Fin (max (real_of_int (elem t idx)) m)"
  using ravel_less [of idx "shape t"]
  by (simp add: elem_def clamp_min_def well_shaped_def)

lemma shape_clamp_min [simp]: "shape (clamp_min t m) = shape t"
  by (simp add: clamp_min_def)

lemma expand_mask:
  "shape M = [B', T'] \<Longrightarrow>
   expand (unsqueeze_last M) [B, T, H] =
     (if (B' = B \<or> B' = 1) \<and> (T' = T \<or> T' = 1)
      then Inr (tabulate [B, T, H] (\<lambda>idx. elem (unsqueeze_last M) (bsrc [B', T', 1] idx)))
      else Inl RuntimeError)"
  by (auto simp add: expand_def expandable_def unsqueeze_last_def)

lemma elem_unsqueeze_last_2d:
  "shape M = [B', T'] \<Longrightarrow> elem (unsqueeze_last M) [b, t, 0] = elem M [b, t]"
  by (simp add: elem_def unsqueeze_last_def)

lemma elem_expand_mask:
  "shape M = [B', T'] \<Longrightarrow> b < B \<Longrightarrow> t < T \<Longrightarrow> h < H \<Longrightarrow>
   elem (tabulate [B, T, H] (\<lambda>idx. elem (unsqueeze_last M) (bsrc [B', T', 1] idx))) [b, t, h]
     = elem M [bidx B' b, bidx T' t]"
  by (simp add: elem_tabulate bsrc_def elem_unsqueeze_last_2d bidx_def)

lemma foldl_add_int: "foldl (+) a xs = a + sum_list (xs :: int list)"
  by (induction xs arbitrary: a) simp_all

lemma mean_pooling_3d:
  assumes E: "shape E = [B, T, H]" and M: "shape M = [B', T']"
    and B': "B' = B \<or> B' = 1" and T': "T' = T \<or> T' = 1"
  shows "\<exists>S. mean_pooling E M = Inr S \<and> shape S = [B, H] \<and> well_shaped S \<and>
    (\<forall>b<B. \<forall>h<H. elem S [b, h] =
       fdiv (fsum (map (\<lambda>t. fmul (elem E [b, t, h]) (of_mask (elem M [bidx B' b, bidx T' t]))) [0..<T]))
            (Fin (max (real_of_int (sum_list (map (\<lambda>t. elem M [bidx B' b, bidx T' t]) [0..<T]))) eps)))"
proof -
  define ime where "ime = tabulate [B, T, H] (\<lambda>idx. elem (unsqueeze_last M) (bsrc [B', T', 1] idx))"
  define masked where "masked = tabulate (shape E)
     (\<lambda>idx. fmul (elem E (bsrc (shape E) idx)) (of_mask (elem ime (bsrc (shape E) idx))))"
  define se where "se = tabulate [B, H]
     (\<lambda>idx. foldl fadd (Fin 0) (map (\<lambda>j. elem masked (take 1 idx @ j # drop 1 idx)) [0..<T]))"
  define ms where "ms = tabulate [B, H]
     (\<lambda>idx. foldl (+) 0 (map (\<lambda>j. elem ime (take 1 idx @ j # drop 1 idx)) [0..<T]))"
  define S where "S = tabulate (shape se)
     (\<lambda>idx. fdiv (elem se (bsrc (shape se) idx)) (elem (clamp_min ms eps) (bsrc (shape se) idx)))"
  have s1: "expand (unsqueeze_last M) (shape E) = Inr ime"
    using B' T' by (simp add: expand_mask [OF M] E ime_def)
  have sh_ime: "shape ime = [B, T, H]" by (simp add: ime_def)
  have s2: "binop (\<lambda>x m. fmul x (of_mask m)) E ime = Inr masked"
    using binop_same [of E ime] by (simp add: E sh_ime masked_def)
  have sh_masked: "shape masked = [B, T, H]" by (simp add: masked_def E)
  have s3: "sum_dim fadd (Fin 0) masked 1 = Inr se"
    unfolding se_def by (rule sum_dim_3d [OF sh_masked])
  have s4: "sum_dim (+) 0 ime 1 = Inr ms"
    unfolding ms_def by (rule sum_dim_3d [OF sh_ime])
  have sh_se: "shape se = [B, H]" by (simp add: se_def)
  have sh_ms: "shape ms = [B, H]" by (simp add: ms_def)
  have s5: "binop fdiv se (clamp_min ms eps) = Inr S"
    using binop_same [of se "clamp_min ms eps" fdiv] by (simp add: sh_se sh_ms S_def)
  have mp: "mean_pooling E M = Inr S"
    by (simp only: mean_pooling_def s1 s2 s3 s4 s5 sum.case)
  have sh_S: "shape S = [B, H]" by (simp add: S_def sh_se)
  have ws_S: "well_shaped S" by (simp add: S_def)
  have el: "elem S [b, h] =
       fdiv (fsum (map (\<lambda>t. fmul (elem E [b, t, h]) (of_mask (elem M [bidx B' b, bidx T' t]))) [0..<T]))
            (Fin (max (real_of_int (sum_list (map (\<lambda>t. elem M [bidx B' b, bidx T' t]) [0..<T]))) eps))"
    if b: "b < B" and h: "h < H" for b h
  proof -
    have ime_el: "elem ime [b, t, h] = elem M [bidx B' b, bidx T' t]" if "t < T" for t
      unfolding ime_def by (rule elem_expand_mask [OF M b that h])
    have masked_el: "elem masked [b, t, h] = fmul (elem E [b, t, h]) (of_mask (elem M [bidx B' b, bidx T' t]))"
      if "t < T" for t
      using that b h ime_el [OF that]
      by (simp add: masked_def E elem_tabulate bsrc_same)
    have se_el: "elem se [b, h] =
        fsum (map (\<lambda>t. fmul (elem E [b, t, h]) (of_mask (elem M [bidx B' b, bidx T' t]))) [0..<T])"
    proof -
      have "map (\<lambda>t. elem masked [b, t, h]) [0..<T] =
          map (\<lambda>t. fmul (elem E [b, t, h]) (of_mask (elem M [bidx B' b, bidx T' t]))) [0..<T]"
        by (rule map_cong) (simp_all add: masked_el)
      then have eq: "foldl fadd (Fin 0) (map (\<lambda>t. elem masked [b, t, h]) [0..<T]) =
          fsum (map (\<lambda>t. fmul (elem E [b, t, h]) (of_mask (elem M [bidx B' b, bidx T' t]))) [0..<T])"
        unfolding fsum_def by (rule arg_cong)
      have "elem se [b, h] = foldl fadd (Fin 0) (map (\<lambda>t. elem masked [b, t, h]) [0..<T])"
        using b h by (simp add: se_def elem_tabulate)
      then show ?thesis using eq by (rule trans)
    qed
    have ms_el: "elem ms [b, h] = sum_list (map (\<lambda>t. elem M [bidx B' b, bidx T' t]) [0..<T])"
    proof -
      have "map (\<lambda>t. elem ime [b, t, h]) [0..<T] =
          map (\<lambda>t. elem M [bidx B' b, bidx T' t]) [0..<T]"
        by (rule map_cong) (simp_all add: ime_el)
      then have eq: "sum_list (map (\<lambda>t. elem ime [b, t, h]) [0..<T]) =
          sum_list (map (\<lambda>t. elem M [bidx B' b, bidx T' t]) [0..<T])"
        by (rule arg_cong)
      have "elem ms [b, h] = sum_list (map (\<lambda>t. elem ime [b, t, h]) [0..<T])"
        using b h by (simp add: ms_def elem_tabulate foldl_add_int)
      then show ?thesis using eq by (rule trans)
    qed
    have ws_ms: "well_shaped ms" by (simp add: ms_def)
    have cl_el: "elem (clamp_min ms eps) [b, h] =
        Fin (max (real_of_int (sum_list (map (\<lambda>t. elem M [bidx B' b, bidx T' t]) [0..<T]))) eps)"
      using b h by (simp add: elem_clamp_min [OF ws_ms] sh_ms ms_el)
    show ?thesis
      using b h by (simp add: S_def sh_se elem_tabulate bsrc_same se_el cl_el)
  qed
  show ?thesis
    using mp sh_S ws_S el by blast
qed

lemma bidx_same: "i < n \<Longrightarrow> bidx n i = i"
  by (auto simp: bidx_def)

lemma mean_pooling_elem:
  assumes mp: "mean_pooling E M = Inr S"
    and E: "shape E = [B, T, H]" and M: "shape M = [B, T]" and b: "b < B" and h: "h < H"
  shows "elem S [b, h] =
       fdiv (fsum (map (\<lambda>t. fmul (elem E [b, t, h]) (of_mask (elem M [b, t]))) [0..<T]))
            (Fin (max (real_of_int (sum_list (map (\<lambda>t. elem M [b, t]) [0..<T]))) eps))"
proof -
  have m1: "map (\<lambda>t. fmul (elem E [b, t, h]) (of_mask (elem M [bidx B b, bidx T t]))) [0..<T] =
      map (\<lambda>t. fmul (elem E [b, t, h]) (of_mask (elem M [b, t]))) [0..<T]"
    by (rule map_cong) (simp_all add: bidx_same b)
  have m2: "map (\<lambda>t. elem M [bidx B b, bidx T t]) [0..<T] = map (\<lambda>t. elem M [b, t]) [0..<T]"
    by (rule map_cong) (simp_all add: bidx_same b)
  from mean_pooling_3d [OF E M] mp b h
  have "elem S [b, h] =
       fdiv (fsum (map (\<lambda>t. fmul (elem E [b, t, h]) (of_mask (elem M [bidx B b, bidx T t]))) [0..<T]))
            (Fin (max (real_of_int (sum_list (map (\<lambda>t. elem M [bidx B b, bidx T t]) [0..<T]))) eps))"
    by auto
  then show ?thesis unfolding m1 m2 .
qed

lemma mean_pooling_returns:
  "shape E = [B, T, H] \<Longrightarrow> shape M = [B, T] \<Longrightarrow>
   \<exists>S. mean_pooling E M = Inr S \<and> shape S = [B, H] \<and> well_shaped S"
  using mean_pooling_3d [of E B T H M B T] by auto

lemma foldl_fadd_fin:
  "\<forall>x\<in>set xs. is_fin x \<Longrightarrow> foldl fadd (Fin a) xs = Fin (a + sum_list (map rval xs))"
proof (induction xs arbitrary: a)
  case Nil
  then show ?case by simp
next
  case (Cons x xs)
  then obtain r where "x = Fin r" by (cases x) auto
  with Cons show ?case by (simp add: add.assoc)
qed

lemma fsum_fin: "\<forall>x\<in>set xs. is_fin x \<Longrightarrow> fsum xs = Fin (sum_list (map rval xs))"
  by (simp add: fsum_def foldl_fadd_fin)

lemma fmul_of_mask: "is_fin x \<Longrightarrow> fmul x (of_mask m) = Fin (rval x * real_of_int m)"
  by (cases x) (simp_all add: of_mask_def)

lemma eps_pos: "0 < eps"
  by (simp add: eps_def)

lemma mean_pooling_elem_fin:
  assumes mp: "mean_pooling E M = Inr S"
    and E: "shape E = [B, T, H]" and M: "shape M = [B, T]" and b: "b < B" and h: "h < H"
    and fin: "\<forall>t<T. is_fin (elem E [b, t, h])"
  shows "elem S [b, h] =
       Fin (sum_list (map (\<lambda>t. rval (elem E [b, t, h]) * real_of_int (elem M [b, t])) [0..<T])
            / max (real_of_int (sum_list (map (\<lambda>t. elem M [b, t]) [0..<T]))) eps)"
proof -
  let ?xs = "map (\<lambda>t. fmul (elem E [b, t, h]) (of_mask (elem M [b, t]))) [0..<T]"
  have xs: "?xs = map (\<lambda>t. Fin (rval (elem E [b, t, h]) * real_of_int (elem M [b, t]))) [0..<T]"
    by (rule map_cong) (simp_all add: fmul_of_mask fin)
  have "fsum ?xs = Fin (sum_list (map rval ?xs))"
    unfolding xs by (rule fsum_fin) simp
  also have "map rval ?xs = map (\<lambda>t. rval (elem E [b, t, h]) * real_of_int (elem M [b, t])) [0..<T]"
    unfolding xs by (simp add: comp_def)
  finally have s: "fsum ?xs =
      Fin (sum_list (map (\<lambda>t. rval (elem E [b, t, h]) * real_of_int (elem M [b, t])) [0..<T]))" .
  have d: "max (real_of_int (sum_list (map (\<lambda>t. elem M [b, t]) [0..<T]))) eps \<noteq> 0"
    using eps_pos by (simp add: max_def)
  show ?thesis
    unfolding mean_pooling_elem [OF mp E M b h] s using d by simp
qed

lemma masked_sums:
  fixes e :: "nat \<Rightarrow> real" and m :: "nat \<Rightarrow> int"
  assumes "\<forall>t\<in>set ts. m t = 0 \<or> m t = 1"
  shows "sum_list (map (\<lambda>t. e t * real_of_int (m t)) ts) = sum_list (map e (filter (\<lambda>t. m t = 1) ts))"
    and "sum_list (map m ts) = int (length (filter (\<lambda>t. m t = 1) ts))"
  using assms by (induction ts) auto

lemma eps_le_1: "eps \<le> 1"
  by (simp add: eps_def)

section \<open>Properties of masked mean pooling\<close>

text \<open>
  Claim C4. For inputs of shapes \<open>(B, T, H)\<close> and \<open>(B, T)\<close> the output of
  \<open>mean_pooling\<close> has shape \<open>(B, H)\<close> and holds \<open>B * H\<close> elements; the bounds
  \<open>B, T, H \<ge> 1\<close> are not needed.
\<close>

theorem mean_pooling_shape:
  assumes "shape E = [B, T, H]" and "shape M = [B, T]"
  shows "\<exists>S. mean_pooling E M = Inr S \<and> shape S = [B, H] \<and> length (data S) = B * H"
  using mean_pooling_returns [OF assms] by (auto simp: well_shaped_def)

theorem mean_pooling_shape_witness:
  "\<exists>S. mean_pooling \<lparr>shape = [2, 3, 4], data = replicate 24 (Fin 1)\<rparr>
           \<lparr>shape = [2, 3], data = [1, 1, 0, 1, 0, 0]\<rparr> = Inr S \<and>
       shape S = [2, 4] \<and> length (data S) = 8"
  using mean_pooling_shape [of "\<lparr>shape = [2, 3, 4], data = replicate 24 (Fin 1)\<rparr>" 2 3 4
      "\<lparr>shape = [2, 3], data = [1, 1, 0, 1, 0, 0]\<rparr>"]
  by simp

lemma mean_pooling_rejects:
  assumes E: "shape E = [B, T, H]" and M: "shape M = [B', T']"
    and bad: "(B' \<noteq> B \<and> B' \<noteq> 1) \<or> (T' \<noteq> T \<and> T' \<noteq> 1)"
  shows "mean_pooling E M = Inl RuntimeError"
proof -
  have "expand (unsqueeze_last M) (shape E) = Inl RuntimeError"
    unfolding E expand_mask [OF M] using bad by auto
  then show ?thesis by (simp add: mean_pooling_def)
qed

text \<open>
  Claim C2, amended. The only shape check is the one \<^verbatim>\<open>expand\<close> makes: a mask
  dimension of size 1 is broadcast, and \<open>mean_pooling\<close> raises (the \<^verbatim>\<open>RuntimeError\<close> of
  \<^verbatim>\<open>expand\<close>) exactly when a dimension of the mask is neither the corresponding
  dimension of the embeddings nor 1.
\<close>

theorem mean_pooling_shape_check:
  assumes E: "shape E = [B, T, H]" and M: "shape M = [B', T']"
  shows "(mean_pooling E M = Inl RuntimeError) = ((B' \<noteq> B \<and> B' \<noteq> 1) \<or> (T' \<noteq> T \<and> T' \<noteq> 1)) \<and>
         (\<exists>S. mean_pooling E M = Inr S \<and> shape S = [B, H]) = ((B' = B \<or> B' = 1) \<and> (T' = T \<or> T' = 1))"
proof (cases "(B' = B \<or> B' = 1) \<and> (T' = T \<or> T' = 1)")
  case True
  then have "\<exists>S. mean_pooling E M = Inr S \<and> shape S = [B, H]"
    using mean_pooling_3d [OF E M] by blast
  with True show ?thesis by auto
next
  case False
  then have "mean_pooling E M = Inl RuntimeError"
    using mean_pooling_rejects [OF E M] by blast
  with False show ?thesis by auto
qed

theorem mean_pooling_shape_check_witness:
  "mean_pooling \<lparr>shape = [2, 2, 1], data = [Fin 3, Fin 5, Fin 7, Fin 8]\<rparr>
      \<lparr>shape = [3, 2], data = [1, 0, 0, 0, 1, 1]\<rparr> = Inl RuntimeError"
  using mean_pooling_shape_check [of "\<lparr>shape = [2, 2, 1], data = [Fin 3, Fin 5, Fin 7, Fin 8]\<rparr>" 2 2 1
      "\<lparr>shape = [3, 2], data = [1, 0, 0, 0, 1, 1]\<rparr>" 3 2]
  by simp

theorem mean_pooling_shape_mismatch_counterexample:
  "take 2 (shape \<lparr>shape = [2, 1, 1], data = [Fin 3, Fin 5]\<rparr>) \<noteq> shape \<lparr>shape = [1, 1], data = [1 :: int]\<rparr> \<and>
   mean_pooling \<lparr>shape = [2, 1, 1], data = [Fin 3, Fin 5]\<rparr> \<lparr>shape = [1, 1], data = [1]\<rparr>
     = Inr \<lparr>shape = [2, 1], data = [Fin 3, Fin 5]\<rparr>"
  by (simp add: mean_pooling_def expand_def expandable_def unsqueeze_last_def tabulate_def
      binop_def broadcast_shapes_def sum_dim_def clamp_min_def elem_def bsrc_def bidx_def
      of_mask_def eps_def upt_rec)

lemma mean_pooling_zero_row:
  assumes mp: "mean_pooling E M = Inr S"
    and E: "shape E = [B, T, H]" and M: "shape M = [B, T]" and b: "b < B" and h: "h < H"
    and fin: "\<forall>t<T. is_fin (elem E [b, t, h])"
    and zero: "\<forall>t<T. elem M [b, t] = 0"
  shows "elem S [b, h] = Fin 0"
proof -
  have z: "map (\<lambda>t. elem M [b, t]) [0..<T] = map (\<lambda>t. 0) [0..<T]"
    by (rule map_cong) (simp_all add: zero)
  have e: "map (\<lambda>t. rval (elem E [b, t, h]) * real_of_int (elem M [b, t])) [0..<T] = map (\<lambda>t. 0) [0..<T]"
    by (rule map_cong) (simp_all add: zero)
  show ?thesis
    unfolding mean_pooling_elem_fin [OF mp E M b h fin] z e by (simp add: sum_list_replicate map_replicate_const)
qed

text \<open>
  Claim C3. When the entries of \<open>E\<close> are finite and row \<open>b\<close> of the mask is all zero,
  \<open>mean_pooling\<close> returns and row \<open>b\<close> of its output holds no NaN and no Inf: the divisor
  is \<open>eps\<close>, not zero.
\<close>

theorem mean_pooling_zero_row_no_nan_inf:
  assumes E: "shape E = [B, T, H]" and M: "shape M = [B, T]" and b: "b < B"
    and fin: "\<forall>b<B. \<forall>t<T. \<forall>h<H. is_fin (elem E [b, t, h])"
    and zero: "\<forall>t<T. elem M [b, t] = 0"
  shows "\<exists>S. mean_pooling E M = Inr S \<and>
    (\<forall>h<H. elem S [b, h] \<noteq> NaN \<and> elem S [b, h] \<noteq> PInf \<and> elem S [b, h] \<noteq> NInf)"
proof -
  from mean_pooling_returns [OF E M] obtain S where mp: "mean_pooling E M = Inr S" by blast
  have "elem S [b, h] = Fin 0" if "h < H" for h
    using mean_pooling_zero_row [OF mp E M b that _ zero] fin b that by simp
  then show ?thesis using mp by auto
qed

theorem mean_pooling_zero_row_no_nan_inf_witness:
  "\<exists>S. mean_pooling \<lparr>shape = [2, 2, 1], data = [Fin 3, Fin 5, Fin 7, Fin 8]\<rparr>
           \<lparr>shape = [2, 2], data = [1, 0, 0, 0]\<rparr> = Inr S \<and>
       elem S [1, 0] \<noteq> NaN \<and> elem S [1, 0] \<noteq> PInf \<and> elem S [1, 0] \<noteq> NInf"
proof -
  let ?E = "\<lparr>shape = [2, 2, 1], data = [Fin 3, Fin 5, Fin 7, Fin 8]\<rparr>"
  let ?M = "\<lparr>shape = [2, 2], data = [1 :: int, 0, 0, 0]\<rparr>"
  have E: "shape ?E = [2, 2, 1]" and M: "shape ?M = [2, 2]" and b: "(1::nat) < 2" by simp_all
  have fin: "\<forall>b<2. \<forall>t<2. \<forall>h<1. is_fin (elem ?E [b, t, h])"
    by (simp add: elem_def All_less_Suc eval_nat_numeral)
  have zero: "\<forall>t<2. elem ?M [1, t] = 0"
    by (simp add: elem_def All_less_Suc eval_nat_numeral)
  from mean_pooling_zero_row_no_nan_inf [OF E M b fin zero] show ?thesis
    by auto
qed

section \<open>Purity of masked mean pooling\<close>

lemma mean_pooling_refs_frame:
  assumes e: "e < length (ftensors s)" and m: "m < length (itensors s)"
  shows "case mean_pooling_refs e m s of
      Inl err \<Rightarrow> mean_pooling (ftensors s ! e) (itensors s ! m) = Inl err
    | Inr (r, s') \<Rightarrow>
        take (length (ftensors s)) (ftensors s') = ftensors s \<and>
        take (length (itensors s)) (itensors s') = itensors s \<and>
        r < length (ftensors s') \<and>
        mean_pooling (ftensors s ! e) (itensors s ! m) = Inr (ftensors s' ! r)"
  using e m
  by (simp add: mean_pooling_refs_def mean_pooling_def new_f_def new_i_def nth_append
      split: sum.splits)

lemma mean_pooling_reindex:
  assumes E: "shape E = [B, T, H]" and M: "shape M = [B, T]" and p: "\<forall>h<H. p h < H"
  shows "\<exists>S S'. mean_pooling E M = Inr S \<and> mean_pooling (reindex_last p E) M = Inr S' \<and>
    shape S' = shape S \<and> (\<forall>b<B. \<forall>h<H. elem S' [b, h] = elem S [b, p h])"
proof -
  have E': "shape (reindex_last p E) = [B, T, H]"
    by (simp add: reindex_last_def E)
  from mean_pooling_returns [OF E M] obtain S where S: "mean_pooling E M = Inr S" and sh: "shape S = [B, H]"
    by blast
  from mean_pooling_returns [OF E' M] obtain S' where
    S': "mean_pooling (reindex_last p E) M = Inr S'" and sh': "shape S' = [B, H]"
    by blast
  have "elem S' [b, h] = elem S [b, p h]" if b: "b < B" and h: "h < H" for b h
  proof -
    from p h have ph: "p h < H" by simp
    have "map (\<lambda>t. fmul (elem (reindex_last p E) [b, t, h]) (of_mask (elem M [b, t]))) [0..<T] =
        map (\<lambda>t. fmul (elem E [b, t, p h]) (of_mask (elem M [b, t]))) [0..<T]"
      by (rule map_cong) (simp_all add: reindex_last_def E elem_tabulate b h)
    then show ?thesis
      unfolding mean_pooling_elem [OF S' E' M b h] mean_pooling_elem [OF S E M b ph]
      by (rule arg_cong [where f = "\<lambda>xs. fdiv (fsum xs) (Fin (max (real_of_int (sum_list (map (\<lambda>t. elem M [b, t]) [0..<T]))) eps))"])
  qed
  with S S' sh sh' show ?thesis by auto
qed

lemma mask_broadcast:
  assumes M: "shape M = [B, T]"
  shows "\<exists>X. expand (unsqueeze_last M) [B, T, H] = Inr X \<and>
    (\<forall>b<B. \<forall>t<T. \<forall>h<H. elem X [b, t, h] = elem M [b, t])"
proof -
  define X where "X = tabulate [B, T, H] (\<lambda>idx. elem (unsqueeze_last M) (bsrc [B, T, 1] idx))"
  have "expand (unsqueeze_last M) [B, T, H] = Inr X"
    unfolding X_def expand_mask [OF M] by simp
  moreover have "elem X [b, t, h] = elem M [b, t]" if "b < B" "t < T" "h < H" for b t h
    unfolding X_def elem_expand_mask [OF M that] by (simp add: bidx_same that)
  ultimately show ?thesis by blast
qed

text \<open>
  Claim C8. \<open>mean_pooling\<close> on references returns a new tensor and leaves every tensor
  that existed before the call as it was, the embeddings and the mask among them; what it
  returns is \<open>mean_pooling\<close> of the two argument tensors, whatever else the store holds;
  the expanded mask repeats \<open>M[b, t]\<close> along the hidden dimension; and reading the hidden
  dimension of the embeddings through any \<open>p\<close> reads the hidden dimension of the output
  through the same \<open>p\<close>.
\<close>

theorem mean_pooling_pure:
  "(\<forall>(s :: store) e m. e < length (ftensors s) \<and> m < length (itensors s) \<longrightarrow>
      (case mean_pooling_refs e m s of
         Inl err \<Rightarrow> mean_pooling (ftensors s ! e) (itensors s ! m) = Inl err
       | Inr (r, s') \<Rightarrow>
           take (length (ftensors s)) (ftensors s') = ftensors s \<and>
           take (length (itensors s)) (itensors s') = itensors s \<and>
           r < length (ftensors s') \<and>
           mean_pooling (ftensors s ! e) (itensors s ! m) = Inr (ftensors s' ! r))) \<and>
   (\<forall>M B T H. shape M = [B, T] \<longrightarrow>
      (\<exists>X. expand (unsqueeze_last (M :: int tensor)) [B, T, H] = Inr X \<and>
        (\<forall>b<B. \<forall>t<T. \<forall>h<H. elem X [b, t, h] = elem M [b, t]))) \<and>
   (\<forall>E M B T H p. shape E = [B, T, H] \<and> shape M = [B, T] \<and> (\<forall>h<H. p h < H) \<longrightarrow>
      (\<exists>S S'. mean_pooling E M = Inr S \<and> mean_pooling (reindex_last p E) M = Inr S' \<and>
         shape S' = shape S \<and> (\<forall>b<B. \<forall>h<H. elem S' [b, h] = elem S [b, p h])))"
proof (intro conjI allI impI)
  fix s :: store and e m
  assume "e < length (ftensors s) \<and> m < length (itensors s)"
  then show "case mean_pooling_refs e m s of
         Inl err \<Rightarrow> mean_pooling (ftensors s ! e) (itensors s ! m) = Inl err
       | Inr (r, s') \<Rightarrow>
           take (length (ftensors s)) (ftensors s') = ftensors s \<and>
           take (length (itensors s)) (itensors s') = itensors s \<and>
           r < length (ftensors s') \<and>
           mean_pooling (ftensors s ! e) (itensors s ! m) = Inr (ftensors s' ! r)"
    using mean_pooling_refs_frame [of e s m] by (simp only:)
next
  fix M :: "int tensor" and B T H
  assume "shape M = [B, T]"
  then show "\<exists>X. expand (unsqueeze_last M) [B, T, H] = Inr X \<and>
        (\<forall>b<B. \<forall>t<T. \<forall>h<H. elem X [b, t, h] = elem M [b, t])"
    by (rule mask_broadcast)
next
  fix E :: "fval tensor" and M :: "int tensor" and B T H p
  assume a: "shape E = [B, T, H] \<and> shape M = [B, T] \<and> (\<forall>h<H. p h < H)"
  show "\<exists>S S'. mean_pooling E M = Inr S \<and> mean_pooling (reindex_last p E) M = Inr S' \<and>
         shape S' = shape S \<and> (\<forall>b<B. \<forall>h<H. elem S' [b, h] = elem S [b, p h])"
    by (rule mean_pooling_reindex) (simp_all add: a)
qed

theorem mean_pooling_pure_witness:
  "(\<exists>r s'. mean_pooling_refs 0 0
       \<lparr>ftensors = [\<lparr>shape = [1, 2, 2], data = [Fin 3, Fin 4, Fin 5, Fin 6]\<rparr>],
        itensors = [\<lparr>shape = [1, 2], data = [1, 0]\<rparr>]\<rparr> = Inr (r, s') \<and>
     take 1 (ftensors s') = [\<lparr>shape = [1, 2, 2], data = [Fin 3, Fin 4, Fin 5, Fin 6]\<rparr>] \<and>
     take 1 (itensors s') = [\<lparr>shape = [1, 2], data = [1, 0]\<rparr>] \<and>
     ftensors s' ! r = \<lparr>shape = [1, 2], data = [Fin 3, Fin 4]\<rparr>) \<and>
   (\<exists>S S'. mean_pooling \<lparr>shape = [1, 2, 2], data = [Fin 3, Fin 4, Fin 5, Fin 6]\<rparr>
                \<lparr>shape = [1, 2], data = [1, 0]\<rparr> = Inr S \<and>
     mean_pooling (reindex_last (\<lambda>h. 1 - h) \<lparr>shape = [1, 2, 2], data = [Fin 3, Fin 4, Fin 5, Fin 6]\<rparr>)
                \<lparr>shape = [1, 2], data = [1, 0]\<rparr> = Inr S' \<and>
     elem S' [0, 0] = elem S [0, 1] \<and> elem S' [0, 1] = elem S [0, 0])"
proof -
  let ?E = "\<lparr>shape = [1, 2, 2], data = [Fin 3, Fin 4, Fin 5, Fin 6]\<rparr>"
  let ?M = "\<lparr>shape = [1, 2], data = [1 :: int, 0]\<rparr>"
  let ?s = "\<lparr>ftensors = [?E], itensors = [?M]\<rparr>"
  note pure = mean_pooling_pure
  obtain r s' where run: "mean_pooling_refs 0 0 ?s = Inr (r, s')"
    by (simp add: mean_pooling_refs_def expand_def expandable_def unsqueeze_last_def new_i_def
        new_f_def binop_def sum_dim_def)
  have mp: "mean_pooling ?E ?M = Inr \<lparr>shape = [1, 2], data = [Fin 3, Fin 4]\<rparr>"
    by code_simp
  have "0 < length (ftensors ?s) \<and> 0 < length (itensors ?s)" by simp
  with pure [THEN conjunct1, rule_format, of 0 ?s 0] run mp
  have frame: "take 1 (ftensors s') = [?E] \<and> take 1 (itensors s') = [?M] \<and>
      ftensors s' ! r = \<lparr>shape = [1, 2], data = [Fin 3, Fin 4]\<rparr>"
    by simp
  have hyp: "shape ?E = [1, 2, 2] \<and> shape ?M = [1, 2] \<and> (\<forall>h<2. (\<lambda>h. 1 - h) h < (2::nat))"
    by auto
  from pure [THEN conjunct2, THEN conjunct2, rule_format, OF hyp]
  obtain S S' where "mean_pooling ?E ?M = Inr S" "mean_pooling (reindex_last (\<lambda>h. 1 - h) ?E) ?M = Inr S'"
    and el: "\<forall>b<1. \<forall>h<2. elem S' [b, h] = elem S [b, 1 - h]"
    by blast
  moreover from el have "elem S' [0, 0] = elem S [0, 1]" "elem S' [0, 1] = elem S [0, 0]"
    by simp_all
  ultimately show ?thesis using run frame by blast
qed

section \<open>Rounding to float32\<close>

lemma rne_error: "\<bar>real_of_int (rne y) - y\<bar> \<le> 1 / 2"
proof -
  have "real_of_int \<lfloor>y\<rfloor> \<le> y" "y < real_of_int \<lfloor>y\<rfloor> + 1" by linarith+
  then show ?thesis by (auto simp: rne_def Let_def)
qed

lemma rne_of_int [simp]: "rne (real_of_int k) = k"
  by (simp add: rne_def)

lemma rne_bound:
  assumes "\<bar>y\<bar> < 2 ^ 24"
  shows "\<bar>rne y\<bar> \<le> 2 ^ 24"
proof -
  have "\<bar>real_of_int (rne y)\<bar> \<le> \<bar>y\<bar> + 1 / 2"
    using rne_error [of y] by linarith
  then have "\<bar>real_of_int (rne y)\<bar> < 2 ^ 24 + 1"
    using assms by linarith
  then have "real_of_int \<bar>rne y\<bar> < real_of_int (2 ^ 24 + 1)"
    by simp
  then have "\<bar>rne y\<bar> < 2 ^ 24 + 1"
    by (simp only: of_int_less_iff)
  then show ?thesis by simp
qed

lemma ulp_from_Some:
  "ulp_from fuel n X = Some k \<Longrightarrow>
   n \<le> k \<and> k < n + fuel \<and> X < 2 ^ (k + 24) \<and> (n < k \<longrightarrow> 2 ^ (k + 23) \<le> X)"
proof (induction fuel arbitrary: n)
  case 0
  then show ?case by simp
next
  case (Suc fuel)
  show ?case
  proof (cases "X < 2 ^ (n + 24)")
    case True
    with Suc.prems show ?thesis by simp
  next
    case False
    with Suc.prems have r: "ulp_from fuel (Suc n) X = Some k" by simp
    from Suc.IH [OF r] have k: "Suc n \<le> k" "k < Suc n + fuel" "X < 2 ^ (k + 24)"
      and lo: "Suc n < k \<longrightarrow> 2 ^ (k + 23) \<le> X" by simp_all
    have "2 ^ (k + 23) \<le> X"
    proof (cases "Suc n < k")
      case True
      with lo show ?thesis by simp
    next
      case False
      with k have "k = Suc n" by simp
      with \<open>\<not> X < 2 ^ (n + 24)\<close> show ?thesis by (simp add: ac_simps)
    qed
    with k show ?thesis by simp
  qed
qed

lemma ulp_from_exists:
  "X < 2 ^ (n + fuel + 23) \<Longrightarrow> 0 < fuel \<Longrightarrow> \<exists>k. ulp_from fuel n X = Some k"
proof (induction fuel arbitrary: n)
  case 0
  then show ?case by simp
next
  case (Suc fuel)
  show ?case
  proof (cases "X < 2 ^ (n + 24)")
    case True
    then show ?thesis by simp
  next
    case False
    have "fuel \<noteq> 0"
    proof
      assume "fuel = 0"
      with Suc.prems(1) False show False by (simp add: ac_simps)
    qed
    then have "0 < fuel" by simp
    moreover have "X < 2 ^ (Suc n + fuel + 23)" using Suc.prems(1) by simp
    ultimately have "\<exists>k. ulp_from fuel (Suc n) X = Some k" by (rule Suc.IH [rotated])
    with False show ?thesis by simp
  qed
qed

lemma ulp_from_None:
  "ulp_from fuel n X = None \<Longrightarrow> 0 < fuel \<Longrightarrow> 2 ^ (n + fuel + 23) \<le> X"
proof (induction fuel arbitrary: n)
  case 0
  then show ?case by simp
next
  case (Suc fuel)
  from Suc.prems(1) have ge: "\<not> X < 2 ^ (n + 24)" and r: "ulp_from fuel (Suc n) X = None"
    by (simp_all split: if_splits)
  show ?case
  proof (cases "fuel = 0")
    case True
    with ge show ?thesis by (simp add: ac_simps)
  next
    case False
    then have "2 ^ (Suc n + fuel + 23) \<le> X" using Suc.IH [OF r] by simp
    then show ?thesis by simp
  qed
qed

lemma round32_core:
  assumes x: "\<bar>x\<bar> < 2 ^ 127"
  shows "\<exists>k. k \<le> 252 \<and> \<bar>x\<bar> * 2 ^ 149 < 2 ^ (k + 24) \<and>
    (0 < k \<longrightarrow> 2 ^ (k + 23) \<le> \<bar>x\<bar> * 2 ^ 149) \<and>
    round32 x = Fin (real_of_int (rne (x * 2 ^ 149 / 2 ^ k)) * 2 ^ k / 2 ^ 149)"
proof -
  define X where "X = \<bar>x\<bar> * 2 ^ 149"
  have X276: "X < 2 ^ 276"
  proof -
    have "X < 2 ^ 127 * 2 ^ 149" unfolding X_def using x by (intro mult_strict_right_mono) simp_all
    also have "\<dots> = (2::real) ^ 276" by (simp flip: power_add)
    finally show ?thesis .
  qed
  have "X < 2 ^ (0 + 254 + 23)"
  proof -
    have "(2::real) ^ 276 \<le> 2 ^ 277" by (intro power_increasing) simp_all
    with X276 show ?thesis by simp
  qed
  then obtain k where k: "ulp_from 254 0 X = Some k"
    using ulp_from_exists [of X 0 254] by auto
  from ulp_from_Some [OF k] have hi: "X < 2 ^ (k + 24)" and lo: "0 < k \<longrightarrow> 2 ^ (k + 23) \<le> X"
    by simp_all
  have k252: "k \<le> 252"
  proof (rule ccontr)
    assume "\<not> k \<le> 252"
    then have k253: "253 \<le> k" by simp
    then have "(2::real) ^ 276 \<le> 2 ^ (k + 23)" by (intro power_increasing) simp_all
    moreover from k253 lo have "2 ^ (k + 23) \<le> X" by simp
    ultimately show False using X276 by linarith
  qed
  define z where "z = x * 2 ^ 149 / 2 ^ k"
  have "\<bar>z\<bar> = X / 2 ^ k" by (simp add: z_def X_def abs_mult)
  also have "\<dots> < 2 ^ 24"
    using hi by (simp add: power_add field_simps)
  finally have z: "\<bar>z\<bar> < 2 ^ 24" .
  from rne_bound [OF z] have "real_of_int \<bar>rne z\<bar> \<le> real_of_int (2 ^ 24)"
    by (simp only: of_int_le_iff)
  then have m: "\<bar>real_of_int (rne z)\<bar> \<le> 2 ^ 24" by simp
  have p: "(2::real) ^ k \<le> 2 ^ 252" using k252 by (intro power_increasing) simp_all
  have "\<bar>real_of_int (rne z) * 2 ^ k / 2 ^ 149\<bar> = \<bar>real_of_int (rne z)\<bar> * 2 ^ k / 2 ^ 149"
    by (simp add: abs_mult)
  also have "\<dots> \<le> 2 ^ 24 * 2 ^ 252 / 2 ^ 149"
    using m p by (intro divide_right_mono mult_mono) simp_all
  also have "\<dots> = (2::real) ^ 127"
    by simp
  finally have y: "\<bar>real_of_int (rne z) * 2 ^ k / 2 ^ 149\<bar> \<le> 2 ^ 127" .
  have "\<not> (2::real) ^ 128 \<le> \<bar>real_of_int (rne z) * 2 ^ k / 2 ^ 149\<bar>"
  proof -
    have "(2::real) ^ 127 < 2 ^ 128" by simp
    with y show ?thesis by linarith
  qed
  then have "round32 x = Fin (real_of_int (rne z) * 2 ^ k / 2 ^ 149)"
    by (simp only: round32_def X_def [symmetric] k option.case Let_def z_def [symmetric] if_False)
  with k252 hi lo show ?thesis
    unfolding X_def z_def by blast
qed

lemma f32_real_of_rounded:
  assumes m: "\<bar>m\<bar> \<le> 2 ^ 24" and n: "n \<le> (253::nat)"
    and y: "\<bar>real_of_int m * 2 ^ n / 2 ^ 149\<bar> < 2 ^ 128"
  shows "f32_real (real_of_int m * 2 ^ n / 2 ^ 149)"
proof (cases "\<bar>m\<bar> < 2 ^ 24")
  case True
  with n show ?thesis unfolding f32_real_def by blast
next
  case False
  with m have am: "\<bar>m\<bar> = 2 ^ 24" by simp
  have n252: "n \<le> 252"
  proof (rule ccontr)
    assume "\<not> n \<le> 252"
    with n have n253: "n = 253" by simp
    have "\<bar>real_of_int m * 2 ^ n / 2 ^ 149\<bar> = real_of_int \<bar>m\<bar> * 2 ^ n / 2 ^ 149"
      by (simp add: abs_mult)
    also have "\<dots> = (2::real) ^ 128" unfolding am n253 by simp
    finally show False using y by simp
  qed
  from am have "m = 2 ^ 24 \<or> m = - (2 ^ 24)" by linarith
  then have "real_of_int m * 2 ^ n / 2 ^ 149 = real_of_int (m div 2) * 2 ^ Suc n / 2 ^ 149 \<and>
      \<bar>m div 2\<bar> < 2 ^ 24"
    by auto
  moreover have "Suc n \<le> 253" using n252 by simp
  ultimately show ?thesis unfolding f32_real_def by metis
qed

lemma round32_f32_real:
  assumes "round32 x = Fin r"
  shows "f32_real r"
proof (cases "ulp_from 254 0 (\<bar>x\<bar> * 2 ^ 149)")
  case None
  with assms show ?thesis by (simp add: round32_def split: if_splits)
next
  case (Some n)
  define z where "z = x * 2 ^ 149 / 2 ^ n"
  define y where "y = real_of_int (rne z) * 2 ^ n / 2 ^ 149"
  from assms have "(if 2 ^ 128 \<le> \<bar>y\<bar> then (if 0 < x then PInf else NInf) else Fin y) = Fin r"
    by (simp only: round32_def Some option.case Let_def z_def [symmetric] y_def [symmetric])
  then have y128: "\<bar>y\<bar> < 2 ^ 128" and r: "r = y"
    by (simp_all split: if_splits)
  from ulp_from_Some [OF Some] have n: "n \<le> 253" and hi: "\<bar>x\<bar> * 2 ^ 149 < 2 ^ (n + 24)"
    by simp_all
  have "\<bar>z\<bar> = \<bar>x\<bar> * 2 ^ 149 / 2 ^ n" by (simp add: z_def abs_mult)
  also have "\<dots> < 2 ^ 24" using hi by (simp add: power_add field_simps)
  finally have "\<bar>z\<bar> < 2 ^ 24" .
  from rne_bound [OF this] have m: "\<bar>rne z\<bar> \<le> 2 ^ 24" .
  show ?thesis
    unfolding r y_def by (rule f32_real_of_rounded [OF m n]) (use y128 in \<open>simp only: y_def\<close>)
qed

lemma round32_exact:
  assumes "f32_real x"
  shows "round32 x = Fin x"
proof -
  from assms obtain m j where x: "x = real_of_int m * 2 ^ j / 2 ^ 149"
    and m: "\<bar>m\<bar> < 2 ^ 24" and j: "j \<le> (253::nat)"
    unfolding f32_real_def by blast
  define X where "X = \<bar>x\<bar> * 2 ^ 149"
  have X: "X = real_of_int \<bar>m\<bar> * 2 ^ j" by (simp add: X_def x abs_mult)
  have rm: "real_of_int \<bar>m\<bar> < 2 ^ 24"
  proof -
    from m have "real_of_int \<bar>m\<bar> < real_of_int (2 ^ 24)" by (simp only: of_int_less_iff)
    then show ?thesis by simp
  qed
  have Xj: "X < 2 ^ (j + 24)"
    unfolding X power_add using rm by (simp add: mult.commute)
  have "(2::real) ^ (j + 24) \<le> 2 ^ 277" using j by (intro power_increasing) simp_all
  with Xj have "X < 2 ^ (0 + 254 + 23)" by simp
  then obtain k where k: "ulp_from 254 0 X = Some k"
    using ulp_from_exists [of X 0 254] by auto
  from ulp_from_Some [OF k] have lo: "0 < k \<longrightarrow> 2 ^ (k + 23) \<le> X" by simp
  have kj: "k \<le> j"
  proof (rule ccontr)
    assume "\<not> k \<le> j"
    then have jk: "j < k" by simp
    with lo have "2 ^ (k + 23) \<le> X" by simp
    moreover have "(2::real) ^ (j + 24) \<le> 2 ^ (k + 23)" using jk by (intro power_increasing) simp_all
    ultimately show False using Xj by linarith
  qed
  define z where "z = x * 2 ^ 149 / 2 ^ k"
  have "z = real_of_int m * 2 ^ (j - k)"
    unfolding z_def x using kj by (simp add: power_diff)
  also have "\<dots> = real_of_int (m * 2 ^ (j - k))" by simp
  finally have zi: "z = real_of_int (m * 2 ^ (j - k))" .
  have y: "real_of_int (rne z) * 2 ^ k / 2 ^ 149 = x"
  proof -
    have "real_of_int (rne z) = z" unfolding zi by (simp only: rne_of_int)
    then show ?thesis by (simp add: z_def)
  qed
  have "\<bar>x\<bar> < 2 ^ 128"
  proof -
    have "\<bar>x\<bar> = X / 2 ^ 149" by (simp add: X_def)
    also have "\<dots> < 2 ^ (j + 24) / 2 ^ 149" using Xj by (simp add: divide_strict_right_mono)
    also have "\<dots> \<le> 2 ^ 277 / 2 ^ 149"
      using \<open>(2::real) ^ (j + 24) \<le> 2 ^ 277\<close> by (simp add: divide_right_mono)
    also have "\<dots> = (2::real) ^ 128" by simp
    finally show ?thesis .
  qed
  then have no: "\<not> 2 ^ 128 \<le> \<bar>x\<bar>" by simp
  show ?thesis
    using no
    by (simp only: round32_def X_def [symmetric] k option.case Let_def z_def [symmetric] y if_False)
qed

lemma is_f32_iff: "is_f32 (Fin a) = f32_real a"
  using round32_exact [of a] round32_f32_real [of a a] by (auto simp: is_f32_def)

lemma round32_error:
  assumes x: "\<bar>x\<bar> < 2 ^ 127"
  shows "\<exists>r. round32 x = Fin r \<and> f32_real r \<and> \<bar>r - x\<bar> \<le> u32 * \<bar>x\<bar> + 1 / 2 ^ 150 \<and>
    ((\<exists>i. x * 2 ^ 149 = real_of_int i) \<longrightarrow> \<bar>r - x\<bar> \<le> u32 * \<bar>x\<bar>)"
proof -
  from round32_core [OF x] obtain k where k: "k \<le> 252"
    and lo: "0 < k \<longrightarrow> 2 ^ (k + 23) \<le> \<bar>x\<bar> * 2 ^ 149"
    and r: "round32 x = Fin (real_of_int (rne (x * 2 ^ 149 / 2 ^ k)) * 2 ^ k / 2 ^ 149)"
    by blast
  define z where "z = x * 2 ^ 149 / 2 ^ k"
  define r' where "r' = real_of_int (rne z) * 2 ^ k / 2 ^ 149"
  have rr: "round32 x = Fin r'" using r by (simp only: r'_def z_def)
  from round32_f32_real [OF rr] have f: "f32_real r'" .
  define c where "c = (2::real) ^ k / 2 ^ 149"
  have c0: "0 \<le> c" by (simp add: c_def)
  have xz: "x = z * c" by (simp add: z_def c_def)
  have rc: "r' = real_of_int (rne z) * c" by (simp add: r'_def c_def)
  have "r' - x = (real_of_int (rne z) - z) * c"
    unfolding rc by (subst xz) (simp only: left_diff_distrib)
  then have "\<bar>r' - x\<bar> = \<bar>real_of_int (rne z) - z\<bar> * c"
    using c0 by (simp only: abs_mult abs_of_nonneg)
  also have "\<dots> \<le> 1 / 2 * c"
    using rne_error [of z] c0 by (intro mult_right_mono) simp_all
  finally have e: "\<bar>r' - x\<bar> \<le> 1 / 2 * (2 ^ k / 2 ^ 149)" by (simp only: c_def)
  have u0: "0 \<le> u32 * \<bar>x\<bar>" by (simp add: u32_def)
  show ?thesis
  proof (cases "k = 0")
    case True
    from e True have e0: "\<bar>r' - x\<bar> \<le> 1 / 2 ^ 150" by simp
    have "\<bar>r' - x\<bar> \<le> u32 * \<bar>x\<bar>" if "\<exists>i. x * 2 ^ 149 = real_of_int i"
    proof -
      from that obtain i where "x * 2 ^ 149 = real_of_int i" by blast
      then have "z = real_of_int i" by (simp add: z_def True)
      then have "real_of_int (rne z) = z" by (simp only: rne_of_int)
      then have "r' = x" by (simp only: rc xz)
      with u0 show ?thesis by simp
    qed
    with e0 u0 rr f show ?thesis by (intro exI [of _ r']) auto
  next
    case False
    with lo have "2 ^ (k + 23) \<le> \<bar>x\<bar> * 2 ^ 149" by simp
    then have "2 ^ k / 2 ^ 149 \<le> \<bar>x\<bar> / 2 ^ 23"
      by (simp add: power_add field_simps)
    then have "1 / 2 * (2 ^ k / 2 ^ 149) \<le> 1 / 2 * (\<bar>x\<bar> / 2 ^ 23)"
      by (intro mult_left_mono) simp_all
    also have "\<dots> = u32 * \<bar>x\<bar>" by (simp add: u32_def)
    finally have "\<bar>r' - x\<bar> \<le> u32 * \<bar>x\<bar>" using e by linarith
    then show ?thesis using rr f by (intro exI [of _ r']) auto
  qed
qed

lemma f32_real_scaled: "f32_real a \<Longrightarrow> \<exists>i. a * 2 ^ 149 = real_of_int i"
proof -
  assume "f32_real a"
  then obtain m k where "a = real_of_int m * 2 ^ k / 2 ^ 149" unfolding f32_real_def by blast
  then have "a * 2 ^ 149 = real_of_int (m * 2 ^ k)" by simp
  then show ?thesis by blast
qed

lemma round32_add:
  assumes a: "f32_real a" and b: "f32_real b" and s: "\<bar>a + b\<bar> < 2 ^ 127"
  shows "\<exists>r. round32 (a + b) = Fin r \<and> f32_real r \<and> \<bar>r - (a + b)\<bar> \<le> u32 * \<bar>a + b\<bar>"
proof -
  from f32_real_scaled [OF a] f32_real_scaled [OF b] obtain i j where
    "a * 2 ^ 149 = real_of_int i" "b * 2 ^ 149 = real_of_int j" by blast
  then have "(a + b) * 2 ^ 149 = real_of_int (i + j)" by (simp add: algebra_simps)
  then have "\<exists>i. (a + b) * 2 ^ 149 = real_of_int i" by blast
  with round32_error [OF s] show ?thesis by blast
qed

lemma f32_real_0 [simp]: "f32_real 0"
  unfolding f32_real_def by (intro exI [of _ 0]) simp

lemma f32_realI:
  "\<bar>m\<bar> < 2 ^ 24 \<Longrightarrow> j \<le> (253::nat) \<Longrightarrow> r = real_of_int m * 2 ^ j / 2 ^ 149 \<Longrightarrow> f32_real r"
  unfolding f32_real_def by blast

lemma f32_real_int:
  assumes "0 \<le> k" and "k \<le> 2 ^ 24"
  shows "f32_real (real_of_int k)"
proof (cases "k < 2 ^ 24")
  case True
  have "real_of_int k = real_of_int k * 2 ^ 149 / 2 ^ 149"
    by simp
  moreover have "\<bar>k\<bar> < 2 ^ 24" using assms True by simp
  moreover have "(149::nat) \<le> 253" by simp
  ultimately show ?thesis by (rule f32_realI [rotated 2])
next
  case False
  with assms have k: "k = 2 ^ 24" by simp
  have "(2::real) ^ 150 = 2 * 2 ^ 149" by simp
  then have "real_of_int (2 ^ 23) * 2 ^ 150 / 2 ^ 149 = real_of_int (2 ^ 23) * 2"
    by simp
  then have "real_of_int k = real_of_int (2 ^ 23) * 2 ^ 150 / 2 ^ 149"
    unfolding k by simp
  moreover have "\<bar>2 ^ 23 :: int\<bar> < 2 ^ 24" by simp
  moreover have "(150::nat) \<le> 253" by simp
  ultimately show ?thesis by (rule f32_realI [rotated 2])
qed

section \<open>Sums in float32\<close>

lemma u32_pos: "0 < u32"
  by (simp add: u32_def)

lemma add32_Fin: "add32 (Fin a) (Fin b) = round32 (a + b)"
  by (simp add: add32_def)

lemma sum_list_abs_le: "\<bar>sum_list xs\<bar> \<le> sum_list (map abs (xs :: real list))"
  by (induction xs) auto

lemma sum_list_abs_nonneg: "0 \<le> sum_list (map abs (xs :: real list))"
  by (induction xs) auto

lemma foldl_add32_bound:
  assumes "\<forall>x\<in>set xs. f32_real x"
    and "(1 + u32) ^ length xs * sum_list (map abs xs) < 2 ^ 127"
  shows "\<exists>r. foldl add32 (Fin 0) (map Fin xs) = Fin r \<and> f32_real r \<and>
    \<bar>r - sum_list xs\<bar> \<le> ((1 + u32) ^ length xs - 1) * sum_list (map abs xs)"
  using assms
proof (induction xs rule: rev_induct)
  case Nil
  then show ?case by simp
next
  case (snoc x xs)
  define g where "g = (1 + u32) ^ length xs"
  define A where "A = sum_list (map abs xs)"
  define S where "S = sum_list xs"
  have g1: "1 \<le> g" unfolding g_def using u32_pos by (intro one_le_power) simp
  have A0: "0 \<le> A" unfolding A_def by (rule sum_list_abs_nonneg)
  have u0: "0 < u32" by (rule u32_pos)
  have room: "g * (1 + u32) * (A + \<bar>x\<bar>) < 2 ^ 127"
    using snoc.prems(2) by (simp add: g_def A_def mult_ac)
  have gA_le: "g * (A + \<bar>x\<bar>) \<le> g * (1 + u32) * (A + \<bar>x\<bar>)"
  proof -
    have "g * (A + \<bar>x\<bar>) * 1 \<le> g * (A + \<bar>x\<bar>) * (1 + u32)"
      using g1 A0 u0 by (intro mult_left_mono) simp_all
    then show ?thesis by (simp add: mult_ac)
  qed
  have "g * A \<le> g * (A + \<bar>x\<bar>)" using g1 by (intro mult_left_mono) simp_all
  with gA_le room have roomA: "g * A < 2 ^ 127" by linarith
  have fx: "f32_real x" and fxs: "\<forall>y\<in>set xs. f32_real y" using snoc.prems(1) by simp_all
  from snoc.IH [OF fxs] roomA obtain r where r: "foldl add32 (Fin 0) (map Fin xs) = Fin r"
    and fr: "f32_real r" and er: "\<bar>r - S\<bar> \<le> (g - 1) * A"
    unfolding g_def A_def S_def by blast
  have SA: "\<bar>S\<bar> \<le> A" unfolding S_def A_def by (rule sum_list_abs_le)
  have rb: "\<bar>r\<bar> \<le> g * A"
  proof -
    have "\<bar>r\<bar> \<le> \<bar>S\<bar> + \<bar>r - S\<bar>" by linarith
    also have "\<dots> \<le> A + (g - 1) * A" using SA er by linarith
    also have "\<dots> = g * A" by (simp add: algebra_simps)
    finally show ?thesis .
  qed
  have rx: "\<bar>r + x\<bar> \<le> g * A + \<bar>x\<bar>" using rb by linarith
  have "g * A + \<bar>x\<bar> \<le> g * (A + \<bar>x\<bar>)"
  proof -
    have "1 * \<bar>x\<bar> \<le> g * \<bar>x\<bar>" using g1 by (intro mult_right_mono) simp_all
    then show ?thesis by (simp add: algebra_simps)
  qed
  with rx gA_le room have "\<bar>r + x\<bar> < 2 ^ 127" by linarith
  from round32_add [OF fr fx this] obtain r' where r': "round32 (r + x) = Fin r'"
    and fr': "f32_real r'" and er': "\<bar>r' - (r + x)\<bar> \<le> u32 * \<bar>r + x\<bar>"
    by blast
  have fold: "foldl add32 (Fin 0) (map Fin (xs @ [x])) = Fin r'"
    by (simp add: r add32_Fin r')
  have "u32 * \<bar>r + x\<bar> \<le> u32 * (g * A + \<bar>x\<bar>)"
    using rx u0 by (intro mult_left_mono) simp_all
  with er' have e1: "\<bar>r' - (r + x)\<bar> \<le> u32 * (g * A + \<bar>x\<bar>)" by linarith
  have "\<bar>r' - (S + x)\<bar> \<le> \<bar>r' - (r + x)\<bar> + \<bar>r - S\<bar>" by linarith
  also have "\<dots> \<le> u32 * (g * A + \<bar>x\<bar>) + (g - 1) * A" using e1 er by linarith
  also have "\<dots> = (g * (1 + u32) - 1) * A + u32 * \<bar>x\<bar>" by (simp add: algebra_simps)
  also have "\<dots> \<le> (g * (1 + u32) - 1) * A + (g * (1 + u32) - 1) * \<bar>x\<bar>"
  proof -
    have "1 * (1 + u32) \<le> g * (1 + u32)" using g1 u0 by (intro mult_right_mono) simp_all
    then have "u32 \<le> g * (1 + u32) - 1" by simp
    then have "u32 * \<bar>x\<bar> \<le> (g * (1 + u32) - 1) * \<bar>x\<bar>" by (intro mult_right_mono) simp_all
    then show ?thesis by linarith
  qed
  also have "\<dots> = (g * (1 + u32) - 1) * (A + \<bar>x\<bar>)" by (simp add: algebra_simps)
  finally have "\<bar>r' - (S + x)\<bar> \<le> (g * (1 + u32) - 1) * (A + \<bar>x\<bar>)" .
  then have "\<bar>r' - sum_list (xs @ [x])\<bar> \<le>
      ((1 + u32) ^ length (xs @ [x]) - 1) * sum_list (map abs (xs @ [x]))"
    by (simp add: g_def A_def S_def mult.commute)
  with fold fr' show ?case by blast
qed

section \<open>Masked mean pooling in float32\<close>

lemma elem_clamp_min32:
  "well_shaped t \<Longrightarrow> in_range idx (shape t) \<Longrightarrow>
   elem (clamp_min32 t m) idx = (case of_mask32 (elem t idx) of Fin r \<Rightarrow> Fin (max r m) | v \<Rightarrow> v)"
  using ravel_less [of idx "shape t"]
  by (simp add: elem_def clamp_min32_def well_shaped_def)

lemma shape_clamp_min32 [simp]: "shape (clamp_min32 t m) = shape t"
  by (simp add: clamp_min32_def)

lemma mean_pooling_f32_3d:
  assumes E: "shape E = [B, T, H]" and M: "shape M = [B, T]"
  shows "\<exists>S. mean_pooling_f32 E M = Inr S \<and> shape S = [B, H] \<and> well_shaped S \<and>
    (\<forall>b<B. \<forall>h<H. elem S [b, h] =
       div32 (foldl add32 (Fin 0) (map (\<lambda>t. mul32 (elem E [b, t, h]) (of_mask32 (elem M [b, t]))) [0..<T]))
             (case of_mask32 (sum_list (map (\<lambda>t. elem M [b, t]) [0..<T])) of
                Fin r \<Rightarrow> Fin (max r eps32) | v \<Rightarrow> v))"
proof -
  define ime where "ime = tabulate [B, T, H] (\<lambda>idx. elem (unsqueeze_last M) (bsrc [B, T, 1] idx))"
  define masked where "masked = tabulate (shape E)
     (\<lambda>idx. mul32 (elem E (bsrc (shape E) idx)) (of_mask32 (elem ime (bsrc (shape E) idx))))"
  define se where "se = tabulate [B, H]
     (\<lambda>idx. foldl add32 (Fin 0) (map (\<lambda>j. elem masked (take 1 idx @ j # drop 1 idx)) [0..<T]))"
  define ms where "ms = tabulate [B, H]
     (\<lambda>idx. foldl (+) 0 (map (\<lambda>j. elem ime (take 1 idx @ j # drop 1 idx)) [0..<T]))"
  define S where "S = tabulate (shape se)
     (\<lambda>idx. div32 (elem se (bsrc (shape se) idx)) (elem (clamp_min32 ms eps32) (bsrc (shape se) idx)))"
  have s1: "expand (unsqueeze_last M) (shape E) = Inr ime"
    by (simp add: expand_mask [OF M] E ime_def)
  have sh_ime: "shape ime = [B, T, H]" by (simp add: ime_def)
  have s2: "binop (\<lambda>x m. mul32 x (of_mask32 m)) E ime = Inr masked"
    using binop_same [of E ime] by (simp add: E sh_ime masked_def)
  have sh_masked: "shape masked = [B, T, H]" by (simp add: masked_def E)
  have s3: "sum_dim add32 (Fin 0) masked 1 = Inr se"
    unfolding se_def by (rule sum_dim_3d [OF sh_masked])
  have s4: "sum_dim (+) 0 ime 1 = Inr ms"
    unfolding ms_def by (rule sum_dim_3d [OF sh_ime])
  have sh_se: "shape se = [B, H]" by (simp add: se_def)
  have sh_ms: "shape ms = [B, H]" by (simp add: ms_def)
  have s5: "binop div32 se (clamp_min32 ms eps32) = Inr S"
    using binop_same [of se "clamp_min32 ms eps32" div32] by (simp add: sh_se sh_ms S_def)
  have mp: "mean_pooling_f32 E M = Inr S"
    by (simp only: mean_pooling_f32_def s1 s2 s3 s4 s5 sum.case)
  have sh_S: "shape S = [B, H]" by (simp add: S_def sh_se)
  have ws_S: "well_shaped S" by (simp add: S_def)
  have el: "elem S [b, h] =
       div32 (foldl add32 (Fin 0) (map (\<lambda>t. mul32 (elem E [b, t, h]) (of_mask32 (elem M [b, t]))) [0..<T]))
             (case of_mask32 (sum_list (map (\<lambda>t. elem M [b, t]) [0..<T])) of
                Fin r \<Rightarrow> Fin (max r eps32) | v \<Rightarrow> v)"
    if b: "b < B" and h: "h < H" for b h
  proof -
    have ime_el: "elem ime [b, t, h] = elem M [b, t]" if "t < T" for t
      unfolding ime_def using elem_expand_mask [OF M b that h] by (simp add: bidx_same b that)
    have masked_el: "elem masked [b, t, h] = mul32 (elem E [b, t, h]) (of_mask32 (elem M [b, t]))"
      if "t < T" for t
      using that b h ime_el [OF that]
      by (simp add: masked_def E elem_tabulate bsrc_same)
    have se_el: "elem se [b, h] =
        foldl add32 (Fin 0) (map (\<lambda>t. mul32 (elem E [b, t, h]) (of_mask32 (elem M [b, t]))) [0..<T])"
    proof -
      have "map (\<lambda>t. elem masked [b, t, h]) [0..<T] =
          map (\<lambda>t. mul32 (elem E [b, t, h]) (of_mask32 (elem M [b, t]))) [0..<T]"
        by (rule map_cong) (simp_all add: masked_el)
      then have eq: "foldl add32 (Fin 0) (map (\<lambda>t. elem masked [b, t, h]) [0..<T]) =
          foldl add32 (Fin 0) (map (\<lambda>t. mul32 (elem E [b, t, h]) (of_mask32 (elem M [b, t]))) [0..<T])"
        by (rule arg_cong)
      have "elem se [b, h] = foldl add32 (Fin 0) (map (\<lambda>t. elem masked [b, t, h]) [0..<T])"
        using b h by (simp add: se_def elem_tabulate)
      then show ?thesis using eq by (rule trans)
    qed
    have ms_el: "elem ms [b, h] = sum_list (map (\<lambda>t. elem M [b, t]) [0..<T])"
    proof -
      have "map (\<lambda>t. elem ime [b, t, h]) [0..<T] = map (\<lambda>t. elem M [b, t]) [0..<T]"
        by (rule map_cong) (simp_all add: ime_el)
      then have eq: "sum_list (map (\<lambda>t. elem ime [b, t, h]) [0..<T]) =
          sum_list (map (\<lambda>t. elem M [b, t]) [0..<T])"
        by (rule arg_cong)
      have "elem ms [b, h] = sum_list (map (\<lambda>t. elem ime [b, t, h]) [0..<T])"
        using b h by (simp add: ms_def elem_tabulate foldl_add_int)
      then show ?thesis using eq by (rule trans)
    qed
    have ws_ms: "well_shaped ms" by (simp add: ms_def)
    have cl_el: "elem (clamp_min32 ms eps32) [b, h] =
        (case of_mask32 (sum_list (map (\<lambda>t. elem M [b, t]) [0..<T])) of
                Fin r \<Rightarrow> Fin (max r eps32) | v \<Rightarrow> v)"
      using b h by (simp add: elem_clamp_min32 [OF ws_ms] sh_ms ms_el)
    show ?thesis
      using b h by (simp add: S_def sh_se elem_tabulate bsrc_same se_el cl_el)
  qed
  show ?thesis
    using mp sh_S ws_S el by blast
qed

lemma eps32_pos: "0 < eps32"
  by (simp add: eps32_def)

lemma eps32_less_1: "eps32 < 1"
  by (simp add: eps32_def)

lemma round32_0 [simp]: "round32 0 = Fin 0"
  by (rule round32_exact) simp

lemma round32_1 [simp]: "round32 1 = Fin 1"
  using round32_exact [OF f32_real_int [of 1]] by simp

lemma of_mask32_0 [simp]: "of_mask32 0 = Fin 0"
  by (simp add: of_mask32_def)

lemma of_mask32_1 [simp]: "of_mask32 1 = Fin 1"
  by (simp add: of_mask32_def)

lemma of_mask32_count: "0 \<le> c \<Longrightarrow> c \<le> 2 ^ 24 \<Longrightarrow> of_mask32 c = Fin (real_of_int c)"
  unfolding of_mask32_def by (rule round32_exact) (rule f32_real_int)

lemma mul32_mask:
  assumes "is_f32 v" and "m = 0 \<or> m = 1"
  shows "mul32 v (of_mask32 m) = Fin (rval v * real_of_int m) \<and> f32_real (rval v * real_of_int m)"
proof -
  from assms(1) obtain a where v: "v = Fin a" and ra: "round32 a = Fin a"
    by (cases v) (simp_all add: is_f32_def)
  have fa: "f32_real a" using assms(1) by (simp add: v is_f32_iff)
  from assms(2) show ?thesis
    by (auto simp: v mul32_def ra fa)
qed

lemma pooled_entry_bound:
  fixes v :: "nat \<Rightarrow> fval" and m :: "nat \<Rightarrow> int"
  assumes fx: "\<forall>t<T. is_f32 (v t)" and bin: "\<forall>t<T. m t = 0 \<or> m t = 1" and T: "T \<le> 2 ^ 24"
    and room: "(1 + u32) ^ T * sum_list (map (\<lambda>t. \<bar>rval (v t)\<bar> * real_of_int (m t)) [0..<T]) < 2 ^ 127"
  shows "\<exists>r. div32 (foldl add32 (Fin 0) (map (\<lambda>t. mul32 (v t) (of_mask32 (m t))) [0..<T]))
               (case of_mask32 (sum_list (map m [0..<T])) of Fin r \<Rightarrow> Fin (max r eps32) | w \<Rightarrow> w) = Fin r \<and>
     f32_real r \<and>
     \<bar>r - sum_list (map (\<lambda>t. rval (v t) * real_of_int (m t)) [0..<T])
            / max (real_of_int (sum_list (map m [0..<T]))) eps\<bar>
       \<le> ((1 + u32) ^ (T + 1) - 1) * sum_list (map (\<lambda>t. \<bar>rval (v t)\<bar> * real_of_int (m t)) [0..<T])
            / max (real_of_int (sum_list (map m [0..<T]))) eps + 1 / 2 ^ 150"
proof -
  define xs where "xs = map (\<lambda>t. rval (v t) * real_of_int (m t)) [0..<T]"
  define A where "A = sum_list (map (\<lambda>t. \<bar>rval (v t)\<bar> * real_of_int (m t)) [0..<T])"
  define N where "N = sum_list xs"
  define c where "c = sum_list (map m [0..<T])"
  define g where "g = (1 + u32) ^ T"
  have u0: "0 < u32" by (rule u32_pos)
  have g1: "1 \<le> g" unfolding g_def using u0 by (intro one_le_power) simp
  have bin': "\<forall>t\<in>set [0..<T]. m t = 0 \<or> m t = 1" using bin by simp
  have prods: "map (\<lambda>t. mul32 (v t) (of_mask32 (m t))) [0..<T] = map Fin xs"
    unfolding xs_def map_map comp_def
    by (rule map_cong) (simp_all add: mul32_mask fx bin)
  have fxs: "\<forall>x\<in>set xs. f32_real x"
    unfolding xs_def using mul32_mask fx bin by auto
  have absxs: "map abs xs = map (\<lambda>t. \<bar>rval (v t)\<bar> * real_of_int (m t)) [0..<T]"
    unfolding xs_def map_map comp_def
  proof (rule map_cong [OF refl])
    fix t assume "t \<in> set [0..<T]"
    then have "m t = 0 \<or> m t = 1" using bin by simp
    then show "\<bar>rval (v t) * real_of_int (m t)\<bar> = \<bar>rval (v t)\<bar> * real_of_int (m t)"
      by auto
  qed
  have A: "sum_list (map abs xs) = A" unfolding A_def absxs ..
  have len: "length xs = T" by (simp add: xs_def)
  have A0: "0 \<le> A" using sum_list_abs_nonneg [of xs] by (simp add: A)
  from foldl_add32_bound [OF fxs] room obtain s where
    s: "foldl add32 (Fin 0) (map Fin xs) = Fin s" and fs: "f32_real s"
    and es: "\<bar>s - N\<bar> \<le> (g - 1) * A"
    unfolding len A N_def g_def A_def [symmetric] by blast
  have NA: "\<bar>N\<bar> \<le> A" using sum_list_abs_le [of xs] by (simp add: N_def A)
  have sb: "\<bar>s\<bar> \<le> g * A"
  proof -
    have "\<bar>s\<bar> \<le> \<bar>N\<bar> + \<bar>s - N\<bar>" by linarith
    also have "\<dots> \<le> A + (g - 1) * A" using NA es by linarith
    also have "\<dots> = g * A" by (simp add: algebra_simps)
    finally show ?thesis .
  qed
  have gA: "g * A < 2 ^ 127" using room by (simp add: g_def A_def)
  have cf: "c = int (length (filter (\<lambda>t. m t = 1) [0..<T]))"
    unfolding c_def by (rule masked_sums(2) [OF bin'])
  have c0: "0 \<le> c" by (simp add: cf)
  have "length (filter (\<lambda>t. m t = 1) [0..<T]) \<le> length [0..<T]" by (rule length_filter_le)
  then have cT: "c \<le> int T" by (simp add: cf)
  have "int T \<le> 2 ^ 24" using T by (metis of_nat_le_iff of_nat_numeral of_nat_power)
  with cT have c24: "c \<le> 2 ^ 24" by linarith
  have cnt: "of_mask32 c = Fin (real_of_int c)" by (rule of_mask32_count [OF c0 c24])
  define d where "d = max (real_of_int c) eps32"
  have d0: "0 < d" unfolding d_def using eps32_pos by (simp add: max_def)
  have lhs: "div32 (foldl add32 (Fin 0) (map (\<lambda>t. mul32 (v t) (of_mask32 (m t))) [0..<T]))
               (case of_mask32 c of Fin r \<Rightarrow> Fin (max r eps32) | w \<Rightarrow> w)
             = round32 (s / d)"
    unfolding prods s cnt using d0 by (simp add: div32_def d_def)
  have goal: "\<exists>r. round32 (s / d) = Fin r \<and> f32_real r \<and>
      \<bar>r - N / max (real_of_int c) eps\<bar> \<le> (g * (1 + u32) - 1) * A / max (real_of_int c) eps + 1 / 2 ^ 150"
  proof (cases "c = 0")
    case True
    then have "filter (\<lambda>t. m t = 1) [0..<T] = []" using cf by simp
    then have nz: "\<forall>t\<in>set [0..<T]. m t \<noteq> 1" by (simp add: filter_empty_conv)
    have "\<forall>x\<in>set xs. x = 0" unfolding xs_def using bin nz by auto
    then have xs0: "xs = replicate (length xs) 0"
      by (metis replicate_length_same)
    have "sum_list (map abs xs) = 0" by (subst xs0) (simp add: sum_list_replicate)
    then have Az: "A = 0" by (simp add: A)
    then have Nz: "N = 0" using NA by simp
    have sz: "s = 0" using es Az Nz by simp
    show ?thesis by (simp add: sz Az Nz)
  next
    case False
    then have c1: "1 \<le> real_of_int c" using c0 by linarith
    have dc: "d = real_of_int c" unfolding d_def using c1 eps32_less_1 by (simp add: max_def)
    have mc: "max (real_of_int c) eps = real_of_int c" using c1 eps_le_1 by (simp add: max_def)
    define q where "q = real_of_int c"
    have q1: "1 \<le> q" using c1 by (simp add: q_def)
    have "\<bar>s / q\<bar> = \<bar>s\<bar> / q" using q1 by simp
    also have "\<dots> \<le> \<bar>s\<bar>" using q1 by (simp add: divide_le_eq) (metis abs_ge_zero mult_left_mono mult.right_neutral)
    finally have sq: "\<bar>s / q\<bar> \<le> \<bar>s\<bar>" .
    with sb gA have "\<bar>s / q\<bar> < 2 ^ 127" by linarith
    from round32_error [OF this] obtain r where r: "round32 (s / q) = Fin r" and fr: "f32_real r"
      and er: "\<bar>r - s / q\<bar> \<le> u32 * \<bar>s / q\<bar> + 1 / 2 ^ 150" by blast
    have "u32 * \<bar>s / q\<bar> = u32 * \<bar>s\<bar> / q" using q1 by simp
    also have "\<dots> \<le> u32 * (g * A) / q"
      using sb u0 q1 by (intro divide_right_mono mult_left_mono) simp_all
    finally have e1: "u32 * \<bar>s / q\<bar> \<le> u32 * (g * A) / q" .
    have "\<bar>s / q - N / q\<bar> = \<bar>s - N\<bar> / q" using q1 by (simp add: diff_divide_distrib [symmetric])
    also have "\<dots> \<le> (g - 1) * A / q" using es q1 by (intro divide_right_mono) simp_all
    finally have e2: "\<bar>s / q - N / q\<bar> \<le> (g - 1) * A / q" .
    have "\<bar>r - N / q\<bar> \<le> \<bar>r - s / q\<bar> + \<bar>s / q - N / q\<bar>" by linarith
    also have "\<dots> \<le> u32 * (g * A) / q + (g - 1) * A / q + 1 / 2 ^ 150"
      using er e1 e2 by linarith
    also have "u32 * (g * A) / q + (g - 1) * A / q = (g * (1 + u32) - 1) * A / q"
      by (simp add: algebra_simps add_divide_distrib diff_divide_distrib)
    finally have "\<bar>r - N / q\<bar> \<le> (g * (1 + u32) - 1) * A / q + 1 / 2 ^ 150" .
    then show ?thesis using r fr by (simp add: dc mc q_def)
  qed
  show ?thesis
    unfolding xs_def [symmetric] N_def [symmetric] A_def [symmetric] c_def [symmetric]
    using goal by (simp add: lhs g_def mult.commute)
qed

lemma ulp_from_None_iff: "2 ^ (n + fuel + 23) \<le> X \<Longrightarrow> ulp_from fuel n X = None"
proof (induction fuel arbitrary: n)
  case 0
  then show ?case by simp
next
  case (Suc fuel)
  have "(2::real) ^ (n + 24) \<le> 2 ^ (n + Suc fuel + 23)"
    by (intro power_increasing) simp_all
  with Suc.prems have "\<not> X < 2 ^ (n + 24)" by linarith
  moreover have "ulp_from fuel (Suc n) X = None"
    using Suc.prems by (intro Suc.IH) simp
  ultimately show ?case by simp
qed

lemma round32_overflow: "2 ^ 128 \<le> x \<Longrightarrow> round32 x = PInf"
proof -
  assume x: "2 ^ 128 \<le> x"
  have "(2::real) ^ 128 * 2 ^ 149 \<le> \<bar>x\<bar> * 2 ^ 149"
    using x by (intro mult_right_mono) simp_all
  then have "(2::real) ^ (0 + 254 + 23) \<le> \<bar>x\<bar> * 2 ^ 149"
    by (simp add: power_add [symmetric])
  then have n: "ulp_from 254 0 (\<bar>x\<bar> * 2 ^ 149) = None"
    by (rule ulp_from_None_iff)
  have "0 < x" using x by (rule less_le_trans [rotated]) simp
  then show ?thesis unfolding round32_def n by simp
qed

lemma tensor_1x1:
  fixes S :: "'a tensor"
  shows "shape S = [1, 1] \<Longrightarrow> well_shaped S \<Longrightarrow> elem S [0, 0] = x \<Longrightarrow> S = \<lparr>shape = [1, 1], data = [x]\<rparr>"
  by (cases S) (auto simp: well_shaped_def elem_def length_Suc_conv)

lemma round32_eval:
  assumes lo: "2 ^ (k + 23) \<le> \<bar>x\<bar> * 2 ^ 149" and hi: "\<bar>x\<bar> * 2 ^ 149 < 2 ^ (k + 24)" and k: "k \<le> 252"
  shows "round32 x = Fin (real_of_int (rne (x * 2 ^ 149 / 2 ^ k)) * 2 ^ k / 2 ^ 149)"
proof -
  have "(2::real) ^ (k + 24) \<le> 2 ^ (127 + 149)" using k by (intro power_increasing) simp_all
  with hi have "\<bar>x\<bar> * 2 ^ 149 < 2 ^ 127 * 2 ^ 149" by (simp add: power_add)
  then have "\<bar>x\<bar> < 2 ^ 127" by simp
  from round32_core [OF this] obtain j where j: "j \<le> 252"
    and jhi: "\<bar>x\<bar> * 2 ^ 149 < 2 ^ (j + 24)"
    and jlo: "0 < j \<longrightarrow> 2 ^ (j + 23) \<le> \<bar>x\<bar> * 2 ^ 149"
    and r: "round32 x = Fin (real_of_int (rne (x * 2 ^ 149 / 2 ^ j)) * 2 ^ j / 2 ^ 149)"
    by blast
  from lo jhi have "(2::real) ^ (k + 23) < 2 ^ (j + 24)" by linarith
  then have "k + 23 < j + 24" by (rule power_less_imp_less_exp [rotated]) simp
  then have kj: "k \<le> j" by simp
  have jk: "j \<le> k"
  proof (cases "0 < j")
    case True
    with jlo hi have "(2::real) ^ (j + 23) < 2 ^ (k + 24)" by linarith
    then have "j + 23 < k + 24" by (rule power_less_imp_less_exp [rotated]) simp
    then show ?thesis by simp
  next
    case False
    then show ?thesis by simp
  qed
  from kj jk have "j = k" by simp
  with r show ?thesis by simp
qed

lemma round32_third: "round32 (1 / 3) = Fin (11184811 / 2 ^ 25)"
proof -
  have "round32 (1 / 3) = Fin (real_of_int (rne ((1 / 3) * 2 ^ 149 / 2 ^ 124)) * 2 ^ 124 / 2 ^ 149)"
    by (rule round32_eval) simp_all
  also have "(1 / 3 :: real) * 2 ^ 149 / 2 ^ 124 = 33554432 / 3" by simp
  also have "rne (33554432 / 3) = 11184811" by (simp add: rne_def Let_def)
  also have "real_of_int 11184811 * 2 ^ 124 / 2 ^ 149 = 11184811 / 2 ^ 25" by simp
  finally show ?thesis .
qed

lemma round32_2p127: "round32 (2 ^ 127) = Fin (2 ^ 127)"
  by (rule round32_exact) (rule f32_realI [of "2 ^ 23" 253], simp_all)

text \<open>
  Claim C1, amended. For token embeddings \<open>E\<close> of shape \<open>(B, T, H)\<close> and a mask \<open>M\<close> of
  shape \<open>(B, T)\<close>, \<open>mean_pooling\<close> in float32 returns \<open>S\<close> of shape \<open>(B, H)\<close> with
  \<open>B * H\<close> elements. Where all entries \<open>E[b, t, h]\<close>, masked or not, are finite float32
  values, row \<open>b\<close> of the mask has values in \<open>{0, 1}\<close>, \<open>T \<le> 2\<^sup>2\<^sup>4\<close> and the sum does not
  overflow (\<open>(1 + u)\<^sup>T * (\<Sum>t. \<bar>E[b, t, h]\<bar> * M[b, t]) < 2\<^sup>1\<^sup>2\<^sup>7\<close> with \<open>u = 2\<^sup>-\<^sup>2\<^sup>4\<close>),
  \<open>S[b, h]\<close> is a finite float32 value that differs from the real number
  \<open>(\<Sum>t. E[b, t, h] * M[b, t]) / max (\<Sum>t. M[b, t]) eps\<close>, \<open>eps = 1e-9\<close>, by at most
  \<open>((1 + u)\<^sup>T\<^sup>+\<^sup>1 - 1) * (\<Sum>t. \<bar>E[b, t, h]\<bar> * M[b, t]) / max (\<Sum>t. M[b, t]) eps + 2\<^sup>-\<^sup>1\<^sup>5\<^sup>0\<close>.
  When the row has at least one 1, this is the distance of \<open>S[b, h]\<close> from the average
  of the unmasked entries, bounded in terms of the average of their magnitudes.
\<close>

theorem mean_pooling_f32_weighted_average:
  fixes E :: "fval tensor"
  assumes E: "shape E = [B, T, H]" and M: "shape M = [B, T]" and b: "b < B" and h: "h < H"
    and T: "T \<le> 2 ^ 24"
    and f32: "\<forall>t<T. is_f32 (elem E [b, t, h])"
    and bin: "\<forall>t<T. elem M [b, t] = 0 \<or> elem M [b, t] = 1"
    and room: "(1 + u32) ^ T *
        sum_list (map (\<lambda>t. \<bar>rval (elem E [b, t, h])\<bar> * real_of_int (elem M [b, t])) [0..<T]) < 2 ^ 127"
  shows "\<exists>S r. mean_pooling_f32 E M = Inr S \<and> shape S = [B, H] \<and> length (data S) = B * H \<and>
    elem S [b, h] = Fin r \<and> is_f32 (Fin r) \<and>
    \<bar>r - sum_list (map (\<lambda>t. rval (elem E [b, t, h]) * real_of_int (elem M [b, t])) [0..<T])
           / max (real_of_int (sum_list (map (\<lambda>t. elem M [b, t]) [0..<T]))) eps\<bar>
      \<le> ((1 + u32) ^ (T + 1) - 1) *
           sum_list (map (\<lambda>t. \<bar>rval (elem E [b, t, h])\<bar> * real_of_int (elem M [b, t])) [0..<T])
           / max (real_of_int (sum_list (map (\<lambda>t. elem M [b, t]) [0..<T]))) eps + 1 / 2 ^ 150 \<and>
    ((\<exists>t<T. elem M [b, t] = 1) \<longrightarrow>
      \<bar>r - sum_list (map (\<lambda>t. rval (elem E [b, t, h])) (filter (\<lambda>t. elem M [b, t] = 1) [0..<T]))
             / real (length (filter (\<lambda>t. elem M [b, t] = 1) [0..<T]))\<bar>
        \<le> ((1 + u32) ^ (T + 1) - 1) *
             sum_list (map (\<lambda>t. \<bar>rval (elem E [b, t, h])\<bar>) (filter (\<lambda>t. elem M [b, t] = 1) [0..<T]))
             / real (length (filter (\<lambda>t. elem M [b, t] = 1) [0..<T])) + 1 / 2 ^ 150)"
proof -
  from mean_pooling_f32_3d [OF E M] obtain S where
    mp: "mean_pooling_f32 E M = Inr S" and sh: "shape S = [B, H]" and ws: "well_shaped S"
    and el: "\<forall>b<B. \<forall>h<H. elem S [b, h] =
       div32 (foldl add32 (Fin 0) (map (\<lambda>t. mul32 (elem E [b, t, h]) (of_mask32 (elem M [b, t]))) [0..<T]))
             (case of_mask32 (sum_list (map (\<lambda>t. elem M [b, t]) [0..<T])) of
                Fin r \<Rightarrow> Fin (max r eps32) | v \<Rightarrow> v)"
    by blast
  have len: "length (data S) = B * H" using ws sh by (simp add: well_shaped_def)
  from pooled_entry_bound [where v = "\<lambda>t. elem E [b, t, h]" and m = "\<lambda>t. elem M [b, t]", OF f32 bin T room]
  obtain r where
    r: "div32 (foldl add32 (Fin 0) (map (\<lambda>t. mul32 (elem E [b, t, h]) (of_mask32 (elem M [b, t]))) [0..<T]))
             (case of_mask32 (sum_list (map (\<lambda>t. elem M [b, t]) [0..<T])) of
                Fin r \<Rightarrow> Fin (max r eps32) | v \<Rightarrow> v) = Fin r"
    and fr: "f32_real r"
    and er: "\<bar>r - sum_list (map (\<lambda>t. rval (elem E [b, t, h]) * real_of_int (elem M [b, t])) [0..<T])
           / max (real_of_int (sum_list (map (\<lambda>t. elem M [b, t]) [0..<T]))) eps\<bar>
      \<le> ((1 + u32) ^ (T + 1) - 1) *
           sum_list (map (\<lambda>t. \<bar>rval (elem E [b, t, h])\<bar> * real_of_int (elem M [b, t])) [0..<T])
           / max (real_of_int (sum_list (map (\<lambda>t. elem M [b, t]) [0..<T]))) eps + 1 / 2 ^ 150"
    by blast
  have elr: "elem S [b, h] = Fin r" using el b h r by simp
  have avg: "\<bar>r - sum_list (map (\<lambda>t. rval (elem E [b, t, h])) (filter (\<lambda>t. elem M [b, t] = 1) [0..<T]))
             / real (length (filter (\<lambda>t. elem M [b, t] = 1) [0..<T]))\<bar>
        \<le> ((1 + u32) ^ (T + 1) - 1) *
             sum_list (map (\<lambda>t. \<bar>rval (elem E [b, t, h])\<bar>) (filter (\<lambda>t. elem M [b, t] = 1) [0..<T]))
             / real (length (filter (\<lambda>t. elem M [b, t] = 1) [0..<T])) + 1 / 2 ^ 150"
    if one: "\<exists>t<T. elem M [b, t] = 1"
  proof -
    have bin': "\<forall>t\<in>set [0..<T]. elem M [b, t] = 0 \<or> elem M [b, t] = 1"
      using bin by simp
    from one have "filter (\<lambda>t. elem M [b, t] = 1) [0..<T] \<noteq> []"
      by (auto simp: filter_empty_conv)
    then have "1 \<le> real (length (filter (\<lambda>t. elem M [b, t] = 1) [0..<T]))"
      by (cases "filter (\<lambda>t. elem M [b, t] = 1) [0..<T]") simp_all
    then have mx: "max (real (length (filter (\<lambda>t. elem M [b, t] = 1) [0..<T]))) eps
        = real (length (filter (\<lambda>t. elem M [b, t] = 1) [0..<T]))"
      using eps_le_1 by (simp add: max_def)
    from er show ?thesis
      unfolding masked_sums(1) [where e = "\<lambda>t. rval (elem E [b, t, h])", OF bin']
        masked_sums(1) [where e = "\<lambda>t. \<bar>rval (elem E [b, t, h])\<bar>", OF bin']
        masked_sums(2) [OF bin']
      by (simp add: mx)
  qed
  show ?thesis
    using mp sh len elr fr er avg by (intro exI [of _ S] exI [of _ r]) (simp add: is_f32_iff)
qed

theorem mean_pooling_f32_weighted_average_witness:
  "\<exists>S r. mean_pooling_f32 \<lparr>shape = [1, 3, 1], data = [Fin 1, Fin 0, Fin 0]\<rparr>
             \<lparr>shape = [1, 3], data = [1, 1, 1]\<rparr> = Inr S \<and>
     shape S = [1, 1] \<and> length (data S) = 1 \<and> elem S [0, 0] = Fin r \<and>
     \<bar>r - 1 / 3\<bar> \<le> ((1 + u32) ^ 4 - 1) * (1 / 3) + 1 / 2 ^ 150"
proof -
  let ?E = "\<lparr>shape = [1, 3, 1], data = [Fin 1, Fin 0, Fin 0]\<rparr>"
  let ?M = "\<lparr>shape = [1, 3], data = [1 :: int, 1, 1]\<rparr>"
  have E: "shape ?E = [1, 3, 1]" and M: "shape ?M = [1, 3]" and z: "(0::nat) < 1" by simp_all
  have T: "(3::nat) \<le> 2 ^ 24" by simp
  have f1: "is_f32 (Fin 1)" using f32_real_int [of 1] by (simp add: is_f32_iff)
  have f0: "is_f32 (Fin 0)" by (simp add: is_f32_iff)
  have f32: "\<forall>t<3. is_f32 (elem ?E [0, t, 0])"
    by (simp add: elem_def All_less_Suc eval_nat_numeral f1 f0)
  have bin: "\<forall>t<3. elem ?M [0, t] = 0 \<or> elem ?M [0, t] = 1"
    by (simp add: elem_def All_less_Suc eval_nat_numeral)
  have room: "(1 + u32) ^ 3 *
        sum_list (map (\<lambda>t. \<bar>rval (elem ?E [0, t, 0])\<bar> * real_of_int (elem ?M [0, t])) [0..<3]) < 2 ^ 127"
    by (simp add: elem_def upt_rec u32_def power3_eq_cube)
  have one: "\<exists>t<3. elem ?M [0, t] = 1"
    by (rule exI [of _ 0]) (simp add: elem_def)
  from mean_pooling_f32_weighted_average [OF E M z z T f32 bin room] one
  obtain S r where mp: "mean_pooling_f32 ?E ?M = Inr S" and sh: "shape S = [1, 1]"
    and len: "length (data S) = 1 * 1" and el: "elem S [0, 0] = Fin r"
    and er: "\<bar>r - sum_list (map (\<lambda>t. rval (elem ?E [0, t, 0])) (filter (\<lambda>t. elem ?M [0, t] = 1) [0..<3]))
             / real (length (filter (\<lambda>t. elem ?M [0, t] = 1) [0..<3]))\<bar>
        \<le> ((1 + u32) ^ (3 + 1) - 1) *
             sum_list (map (\<lambda>t. \<bar>rval (elem ?E [0, t, 0])\<bar>) (filter (\<lambda>t. elem ?M [0, t] = 1) [0..<3]))
             / real (length (filter (\<lambda>t. elem ?M [0, t] = 1) [0..<3])) + 1 / 2 ^ 150"
    by blast
  have "\<bar>r - 1 / 3\<bar> \<le> ((1 + u32) ^ 4 - 1) * (1 / 3) + 1 / 2 ^ 150"
    using er by (simp add: elem_def upt_rec)
  with mp sh len el show ?thesis by (intro exI [of _ S] exI [of _ r]) simp
qed

theorem mean_pooling_f32_counterexample:
  "is_f32 (Fin (2 ^ 127)) \<and>
   mean_pooling_f32 \<lparr>shape = [1, 2, 1], data = [Fin (2 ^ 127), Fin (2 ^ 127)]\<rparr>
       \<lparr>shape = [1, 2], data = [1, 1]\<rparr> = Inr \<lparr>shape = [1, 1], data = [PInf]\<rparr> \<and>
   (2 ^ 127 * real_of_int 1 + 2 ^ 127 * real_of_int 1) / max (real_of_int (1 + 1)) eps = 2 ^ 127 \<and>
   mean_pooling_f32 \<lparr>shape = [1, 3, 1], data = [Fin 1, Fin 0, Fin 0]\<rparr>
       \<lparr>shape = [1, 3], data = [1, 1, 1]\<rparr> = Inr \<lparr>shape = [1, 1], data = [Fin (11184811 / 2 ^ 25)]\<rparr> \<and>
   (11184811 / 2 ^ 25 :: real) \<noteq> (1 * real_of_int 1 + 0 * real_of_int 1 + 0 * real_of_int 1)
       / max (real_of_int (1 + 1 + 1)) eps \<and>
   mean_pooling_f32 \<lparr>shape = [1, 2, 1], data = [Fin 1, PInf]\<rparr>
       \<lparr>shape = [1, 2], data = [1, 0]\<rparr> = Inr \<lparr>shape = [1, 1], data = [NaN]\<rparr>"
proof -
  have run: "mean_pooling_f32 E M = Inr \<lparr>shape = [1, 1], data = [x]\<rparr>"
    if "shape E = [1, T, 1]" and "shape M = [1, T]"
      and "div32 (foldl add32 (Fin 0) (map (\<lambda>t. mul32 (elem E [0, t, 0]) (of_mask32 (elem M [0, t]))) [0..<T]))
             (case of_mask32 (sum_list (map (\<lambda>t. elem M [0, t]) [0..<T])) of
                Fin r \<Rightarrow> Fin (max r eps32) | v \<Rightarrow> v) = x"
    for E :: "fval tensor" and M T x
  proof -
    from mean_pooling_f32_3d [OF that(1) that(2)] obtain S where
      mp: "mean_pooling_f32 E M = Inr S" and sh: "shape S = [1, 1]" and ws: "well_shaped S"
      and el: "\<forall>b<1. \<forall>h<1. elem S [b, h] =
       div32 (foldl add32 (Fin 0) (map (\<lambda>t. mul32 (elem E [b, t, h]) (of_mask32 (elem M [b, t]))) [0..<T]))
             (case of_mask32 (sum_list (map (\<lambda>t. elem M [b, t]) [0..<T])) of
                Fin r \<Rightarrow> Fin (max r eps32) | v \<Rightarrow> v)"
      by blast
    from el that(3) have "elem S [0, 0] = x" by simp
    from tensor_1x1 [OF sh ws this] mp show ?thesis by simp
  qed
  have c1: "is_f32 (Fin (2 ^ 127))" by (simp only: is_f32_def fval.case round32_2p127)
  have two: "of_mask32 2 = Fin 2" using of_mask32_count [of 2] by simp
  have three: "of_mask32 3 = Fin 3" using of_mask32_count [of 3] by simp
  have e32: "max 2 eps32 = 2" "max 3 eps32 = 3" "max 1 eps32 = 1"
    using eps32_less_1 by (simp_all add: max_def)
  have ov: "round32 (2 * 2 ^ 127) = PInf" by (rule round32_overflow) simp
  have c2: "mean_pooling_f32 \<lparr>shape = [1, 2, 1], data = [Fin (2 ^ 127), Fin (2 ^ 127)]\<rparr>
       \<lparr>shape = [1, 2], data = [1, 1]\<rparr> = Inr \<lparr>shape = [1, 1], data = [PInf]\<rparr>"
    by (rule run [where T = 2])
       (simp_all add: elem_def upt_rec mul32_def add32_def div32_def round32_2p127 ov two e32
          del: power_numeral numeral_pow)
  have c3: "(2 ^ 127 * real_of_int 1 + 2 ^ 127 * real_of_int 1) / max (real_of_int (1 + 1)) eps = 2 ^ 127"
    using eps_le_1 by (simp add: max_def)
  have c4: "mean_pooling_f32 \<lparr>shape = [1, 3, 1], data = [Fin 1, Fin 0, Fin 0]\<rparr>
       \<lparr>shape = [1, 3], data = [1, 1, 1]\<rparr> = Inr \<lparr>shape = [1, 1], data = [Fin (11184811 / 2 ^ 25)]\<rparr>"
    by (rule run [where T = 3])
       (simp_all add: elem_def upt_rec mul32_def add32_def div32_def three e32 round32_third)
  have c5: "(11184811 / 2 ^ 25 :: real) \<noteq> (1 * real_of_int 1 + 0 * real_of_int 1 + 0 * real_of_int 1)
       / max (real_of_int (1 + 1 + 1)) eps"
    using eps_le_1 by (simp add: max_def)
  have c6: "mean_pooling_f32 \<lparr>shape = [1, 2, 1], data = [Fin 1, PInf]\<rparr>
       \<lparr>shape = [1, 2], data = [1, 0]\<rparr> = Inr \<lparr>shape = [1, 1], data = [NaN]\<rparr>"
    by (rule run [where T = 2])
       (simp_all add: elem_def upt_rec mul32_def add32_def div32_def e32)
  show ?thesis by (intro conjI c1 c2 c3 c4 c5 c6)
qed

lemma foldl_add32_zeros: "foldl add32 (Fin 0) (map (\<lambda>t. Fin 0) ts) = Fin 0"
  by (induction ts) (simp_all add: add32_def)

lemma mean_pooling_f32_zero_row:
  assumes mp: "mean_pooling_f32 E M = Inr S"
    and E: "shape E = [B, T, H]" and M: "shape M = [B, T]" and b: "b < B" and h: "h < H"
    and fin: "\<forall>t<T. is_fin (elem E [b, t, h])"
    and zero: "\<forall>t<T. elem M [b, t] = 0"
  shows "elem S [b, h] = Fin 0"
proof -
  have p: "map (\<lambda>t. mul32 (elem E [b, t, h]) (of_mask32 (elem M [b, t]))) [0..<T] = map (\<lambda>t. Fin 0) [0..<T]"
  proof (rule map_cong [OF refl])
    fix t assume "t \<in> set [0..<T]"
    then have t: "t < T" by simp
    with fin obtain a where "elem E [b, t, h] = Fin a" by (cases "elem E [b, t, h]") auto
    then show "mul32 (elem E [b, t, h]) (of_mask32 (elem M [b, t])) = Fin 0"
      using zero t by (simp add: mul32_def)
  qed
  have z: "map (\<lambda>t. elem M [b, t]) [0..<T] = map (\<lambda>t. 0) [0..<T]"
    by (rule map_cong) (simp_all add: zero)
  from mean_pooling_f32_3d [OF E M] mp b h have "elem S [b, h] =
       div32 (foldl add32 (Fin 0) (map (\<lambda>t. mul32 (elem E [b, t, h]) (of_mask32 (elem M [b, t]))) [0..<T]))
             (case of_mask32 (sum_list (map (\<lambda>t. elem M [b, t]) [0..<T])) of
                Fin r \<Rightarrow> Fin (max r eps32) | v \<Rightarrow> v)"
    by auto
  also have "\<dots> = Fin 0"
    unfolding p z foldl_add32_zeros using eps32_pos
    by (simp add: sum_list_replicate map_replicate_const div32_def max_def)
  finally show ?thesis .
qed

text \<open>
  Claim C10. When the entries of \<open>E\<close> are finite and row \<open>b\<close> of the mask is all zero,
  \<open>mean_pooling\<close> returns an output of shape \<open>(B, H)\<close> with \<open>B * H\<close> elements whose row
  \<open>b\<close> is the zero vector: the numerator is 0 and the divisor is the floor. This holds
  with the exact operations and with those of float32, where every operation on a row of
  zeros is exact.
\<close>

theorem mean_pooling_zero_row_is_zero:
  assumes E: "shape E = [B, T, H]" and M: "shape M = [B, T]" and b: "b < B"
    and fin: "\<forall>b<B. \<forall>t<T. \<forall>h<H. is_fin (elem E [b, t, h])"
    and zero: "\<forall>t<T. elem M [b, t] = 0"
  shows "(\<exists>S. mean_pooling E M = Inr S \<and> shape S = [B, H] \<and> length (data S) = B * H \<and>
            (\<forall>h<H. elem S [b, h] = Fin 0 \<and> data S ! (b * H + h) = Fin 0)) \<and>
         (\<exists>S. mean_pooling_f32 E M = Inr S \<and> shape S = [B, H] \<and> length (data S) = B * H \<and>
            (\<forall>h<H. elem S [b, h] = Fin 0 \<and> data S ! (b * H + h) = Fin 0))"
proof
  from mean_pooling_returns [OF E M] obtain S where mp: "mean_pooling E M = Inr S"
    and sh: "shape S = [B, H]" and ws: "well_shaped S" by blast
  have len: "length (data S) = B * H" using ws sh by (simp add: well_shaped_def)
  have el: "elem S [b, h] = Fin 0" if "h < H" for h
    using mean_pooling_zero_row [OF mp E M b that _ zero] fin b that by simp
  then have "data S ! (b * H + h) = Fin 0" if "h < H" for h
    using that by (simp add: elem_def sh)
  with mp sh len el
  show "\<exists>S. mean_pooling E M = Inr S \<and> shape S = [B, H] \<and> length (data S) = B * H \<and>
            (\<forall>h<H. elem S [b, h] = Fin 0 \<and> data S ! (b * H + h) = Fin 0)"
    by (intro exI [of _ S]) simp
next
  from mean_pooling_f32_3d [OF E M] obtain S where mp: "mean_pooling_f32 E M = Inr S"
    and sh: "shape S = [B, H]" and ws: "well_shaped S" by blast
  have len: "length (data S) = B * H" using ws sh by (simp add: well_shaped_def)
  have el: "elem S [b, h] = Fin 0" if "h < H" for h
    using mean_pooling_f32_zero_row [OF mp E M b that _ zero] fin b that by simp
  then have "data S ! (b * H + h) = Fin 0" if "h < H" for h
    using that by (simp add: elem_def sh)
  with mp sh len el
  show "\<exists>S. mean_pooling_f32 E M = Inr S \<and> shape S = [B, H] \<and> length (data S) = B * H \<and>
            (\<forall>h<H. elem S [b, h] = Fin 0 \<and> data S ! (b * H + h) = Fin 0)"
    by (intro exI [of _ S]) simp
qed

theorem mean_pooling_zero_row_is_zero_witness:
  "(\<exists>S. mean_pooling \<lparr>shape = [2, 2, 1], data = [Fin 3, Fin 5, Fin 7, Fin 8]\<rparr>
           \<lparr>shape = [2, 2], data = [1, 0, 0, 0]\<rparr> = Inr S \<and>
         shape S = [2, 1] \<and> length (data S) = 2 \<and> elem S [1, 0] = Fin 0 \<and> data S ! 1 = Fin 0) \<and>
   (\<exists>S. mean_pooling_f32 \<lparr>shape = [2, 2, 1], data = [Fin 3, Fin 5, Fin 7, Fin 8]\<rparr>
           \<lparr>shape = [2, 2], data = [1, 0, 0, 0]\<rparr> = Inr S \<and>
         shape S = [2, 1] \<and> length (data S) = 2 \<and> elem S [1, 0] = Fin 0 \<and> data S ! 1 = Fin 0)"
proof -
  let ?E = "\<lparr>shape = [2, 2, 1], data = [Fin 3, Fin 5, Fin 7, Fin 8]\<rparr>"
  let ?M = "\<lparr>shape = [2, 2], data = [1 :: int, 0, 0, 0]\<rparr>"
  have E: "shape ?E = [2, 2, 1]" and M: "shape ?M = [2, 2]" and b: "(1::nat) < 2" by simp_all
  have fin: "\<forall>b<2. \<forall>t<2. \<forall>h<1. is_fin (elem ?E [b, t, h])"
    by (simp add: elem_def All_less_Suc eval_nat_numeral)
  have zero: "\<forall>t<2. elem ?M [1, t] = 0"
    by (simp add: elem_def All_less_Suc eval_nat_numeral)
  from mean_pooling_zero_row_is_zero [OF E M b fin zero] show ?thesis
    by auto
qed

section \<open>Products and sums in float32\<close>

lemma elem_le_sum_list:
  fixes ys :: "real list"
  shows "\<forall>y\<in>set ys. 0 \<le> y \<Longrightarrow> x \<in> set ys \<Longrightarrow> x \<le> sum_list ys"
proof (induction ys)
  case Nil
  then show ?case by simp
next
  case (Cons y ys)
  have "0 \<le> sum_list ys" using Cons.prems(1) by (intro sum_list_nonneg) simp
  then show ?case using Cons by auto
qed

lemma sum_list_affine:
  fixes f :: "'a \<Rightarrow> real"
  shows "sum_list (map (\<lambda>j. a * f j + c) xs) = a * sum_list (map f xs) + real (length xs) * c"
  by (induction xs) (simp_all add: algebra_simps)

lemma sum_list_diff_abs:
  fixes f g :: "'a \<Rightarrow> real"
  shows "\<bar>sum_list (map f xs) - sum_list (map g xs)\<bar> \<le> sum_list (map (\<lambda>j. \<bar>f j - g j\<bar>) xs)"
  by (induction xs) auto

lemma mul32_error:
  assumes "is_f32 x" and "is_f32 y" and "\<bar>rval x * rval y\<bar> < 2 ^ 127"
  shows "\<exists>p. mul32 x y = Fin p \<and> f32_real p \<and>
     \<bar>p - rval x * rval y\<bar> \<le> u32 * \<bar>rval x * rval y\<bar> + 1 / 2 ^ 150"
proof -
  from assms(1) obtain a where x: "x = Fin a" by (cases x) (simp_all add: is_f32_def)
  from assms(2) obtain b where y: "y = Fin b" by (cases y) (simp_all add: is_f32_def)
  from assms(3) have "\<bar>a * b\<bar> < 2 ^ 127" by (simp add: x y)
  from round32_error [OF this] show ?thesis
    by (auto simp: x y mul32_def)
qed

lemma dot32_bound:
  fixes s w :: "nat \<Rightarrow> fval"
  assumes fs: "\<forall>j<H. is_f32 (s j) \<and> is_f32 (w j)" and fb: "is_f32 b"
    and room: "(1 + u32) ^ (H + 1) *
        (sum_list (map (\<lambda>j. \<bar>rval (s j) * rval (w j)\<bar>) [0..<H]) + real H / 2 ^ 150) + \<bar>rval b\<bar> < 2 ^ 127"
  shows "\<exists>r. add32 (foldl add32 (Fin 0) (map (\<lambda>j. mul32 (s j) (w j)) [0..<H])) b = Fin r \<and> f32_real r \<and>
     \<bar>r - (sum_list (map (\<lambda>j. rval (s j) * rval (w j)) [0..<H]) + rval b)\<bar>
       \<le> ((1 + u32) ^ (H + 2) - 1) * (sum_list (map (\<lambda>j. \<bar>rval (s j) * rval (w j)\<bar>) [0..<H]) + \<bar>rval b\<bar>)
          + (1 + u32) ^ (H + 1) * real H / 2 ^ 150"
proof -
  define eta :: real where "eta = 1 / 2 ^ 150"
  define g where "g = (1 + u32) ^ H"
  define x where "x = (\<lambda>j. rval (s j) * rval (w j))"
  define P where "P = sum_list (map (\<lambda>j. \<bar>x j\<bar>) [0..<H])"
  define X where "X = sum_list (map x [0..<H])"
  define p where "p = (\<lambda>j. rval (mul32 (s j) (w j)))"
  define Q where "Q = sum_list (map (\<lambda>j. \<bar>p j\<bar>) [0..<H])"
  define E where "E = real H * eta"
  from fb obtain bv where b: "b = Fin bv" and fbv: "f32_real bv"
    by (cases b) (simp_all add: is_f32_def is_f32_iff [symmetric])
  have u0: "0 < u32" by (rule u32_pos)
  have g1: "1 \<le> g" unfolding g_def using u0 by (intro one_le_power) simp
  have eta0: "0 \<le> eta" by (simp add: eta_def)
  have E0: "0 \<le> E" by (simp add: E_def eta0)
  have P0: "0 \<le> P" unfolding P_def by (intro sum_list_nonneg) auto
  have room': "g * (1 + u32) * (P + E) + \<bar>bv\<bar> < 2 ^ 127"
    using room by (simp add: g_def P_def x_def E_def eta_def b mult_ac)
  have G1: "1 \<le> g * (1 + u32)"
  proof -
    have "1 * 1 \<le> g * (1 + u32)" using g1 u0 by (intro mult_mono) simp_all
    then show ?thesis by simp
  qed
  have PE: "P + E \<le> g * (1 + u32) * (P + E)"
  proof -
    have "1 * (P + E) \<le> g * (1 + u32) * (P + E)"
      using G1 P0 E0 by (intro mult_right_mono) simp_all
    then show ?thesis by simp
  qed
  have P127: "P < 2 ^ 127" using PE room' E0 by linarith
  have xj: "\<bar>x j\<bar> < 2 ^ 127" if "j < H" for j
  proof -
    have "\<bar>x j\<bar> \<in> set (map (\<lambda>j. \<bar>x j\<bar>) [0..<H])" using that by simp
    then have "\<bar>x j\<bar> \<le> P" unfolding P_def by (intro elem_le_sum_list) auto
    with P127 show ?thesis by linarith
  qed
  have pj: "mul32 (s j) (w j) = Fin (p j) \<and> f32_real (p j) \<and> \<bar>p j - x j\<bar> \<le> u32 * \<bar>x j\<bar> + eta"
    if "j < H" for j
  proof -
    from fs that have "is_f32 (s j)" "is_f32 (w j)" by simp_all
    from mul32_error [OF this] xj [OF that] show ?thesis
      by (auto simp: p_def x_def eta_def)
  qed
  have prods: "map (\<lambda>j. mul32 (s j) (w j)) [0..<H] = map Fin (map p [0..<H])"
    unfolding map_map comp_def by (rule map_cong) (simp_all add: pj)
  have fps: "\<forall>y\<in>set (map p [0..<H]). f32_real y" using pj by simp
  have absps: "sum_list (map abs (map p [0..<H])) = Q"
    by (simp add: Q_def comp_def)
  have Qle: "Q \<le> (1 + u32) * P + E"
  proof -
    have "Q \<le> sum_list (map (\<lambda>j. (1 + u32) * \<bar>x j\<bar> + eta) [0..<H])"
      unfolding Q_def
    proof (rule sum_list_mono)
      fix j assume "j \<in> set [0..<H]"
      then have "\<bar>p j - x j\<bar> \<le> u32 * \<bar>x j\<bar> + eta" using pj by simp
      then show "\<bar>p j\<bar> \<le> (1 + u32) * \<bar>x j\<bar> + eta" by (simp add: algebra_simps)
    qed
    also have "\<dots> = (1 + u32) * P + E"
      by (simp add: sum_list_affine P_def E_def)
    finally show ?thesis .
  qed
  have Q0: "0 \<le> Q" unfolding Q_def by (intro sum_list_nonneg) auto
  have gQ: "g * Q \<le> g * ((1 + u32) * P + E)"
    using Qle g1 by (simp add: mult_left_mono)
  have gE: "g * E \<le> g * (1 + u32) * E"
  proof -
    have "g * E * 1 \<le> g * E * (1 + u32)" using g1 E0 u0 by (intro mult_left_mono) simp_all
    then show ?thesis by (simp add: mult_ac)
  qed
  have gQ': "g * ((1 + u32) * P + E) \<le> g * (1 + u32) * (P + E)"
    using gE by (simp add: algebra_simps)
  have "g * Q < 2 ^ 127" using gQ gQ' room' by linarith
  then have "(1 + u32) ^ length (map p [0..<H]) * sum_list (map abs (map p [0..<H])) < 2 ^ 127"
    by (simp only: absps length_map length_upt g_def) simp
  from foldl_add32_bound [OF fps this] obtain D where
    D: "foldl add32 (Fin 0) (map Fin (map p [0..<H])) = Fin D" and fD: "f32_real D"
    and eD: "\<bar>D - sum_list (map p [0..<H])\<bar> \<le> (g - 1) * Q"
    unfolding absps by (auto simp: g_def)
  have pX: "\<bar>sum_list (map p [0..<H]) - X\<bar> \<le> u32 * P + E"
  proof -
    have "\<bar>sum_list (map p [0..<H]) - X\<bar> \<le> sum_list (map (\<lambda>j. \<bar>p j - x j\<bar>) [0..<H])"
      unfolding X_def by (rule sum_list_diff_abs)
    also have "\<dots> \<le> sum_list (map (\<lambda>j. u32 * \<bar>x j\<bar> + eta) [0..<H])"
      by (rule sum_list_mono) (simp add: pj)
    also have "\<dots> = u32 * P + E" by (simp add: sum_list_affine P_def E_def)
    finally show ?thesis .
  qed
  have g1Q: "(g - 1) * Q \<le> (g - 1) * ((1 + u32) * P + E)"
    using Qle g1 by (simp add: mult_left_mono)
  have DX: "\<bar>D - X\<bar> \<le> (g * (1 + u32) - 1) * P + g * E"
  proof -
    have "\<bar>D - X\<bar> \<le> \<bar>D - sum_list (map p [0..<H])\<bar> + \<bar>sum_list (map p [0..<H]) - X\<bar>" by linarith
    also have "\<dots> \<le> (g - 1) * ((1 + u32) * P + E) + (u32 * P + E)" using eD g1Q pX by linarith
    also have "\<dots> = (g * (1 + u32) - 1) * P + g * E" by (simp add: algebra_simps)
    finally show ?thesis .
  qed
  have Dabs: "\<bar>D\<bar> \<le> g * ((1 + u32) * P + E)"
  proof -
    have "\<bar>sum_list (map p [0..<H])\<bar> \<le> Q"
      using sum_list_abs_le [of "map p [0..<H]"] unfolding absps .
    then have "\<bar>D\<bar> \<le> Q + (g - 1) * Q" using eD by linarith
    also have "\<dots> = g * Q" by (simp add: algebra_simps)
    finally show ?thesis using gQ by linarith
  qed
  have "\<bar>D + bv\<bar> \<le> g * ((1 + u32) * P + E) + \<bar>bv\<bar>" using Dabs by linarith
  then have Db: "\<bar>D + bv\<bar> \<le> g * (1 + u32) * (P + E) + \<bar>bv\<bar>" using gQ' by linarith
  with room' have "\<bar>D + bv\<bar> < 2 ^ 127" by linarith
  from round32_add [OF fD fbv this] obtain r where r: "round32 (D + bv) = Fin r"
    and fr: "f32_real r" and er: "\<bar>r - (D + bv)\<bar> \<le> u32 * \<bar>D + bv\<bar>" by blast
  have "u32 * \<bar>D + bv\<bar> \<le> u32 * (g * ((1 + u32) * P + E) + \<bar>bv\<bar>)"
    using Dabs u0 by (intro mult_left_mono) (linarith, simp)
  with er have er': "\<bar>r - (D + bv)\<bar> \<le> u32 * (g * ((1 + u32) * P + E) + \<bar>bv\<bar>)" by linarith
  have uB: "u32 * \<bar>bv\<bar> \<le> (g * (1 + u32) * (1 + u32) - 1) * \<bar>bv\<bar>"
  proof -
    have "1 * (1 + u32) \<le> g * (1 + u32) * (1 + u32)"
      using G1 u0 by (intro mult_right_mono) simp_all
    then have "u32 \<le> g * (1 + u32) * (1 + u32) - 1" by simp
    then show ?thesis by (intro mult_right_mono) simp_all
  qed
  have "\<bar>r - (X + bv)\<bar> \<le> \<bar>r - (D + bv)\<bar> + \<bar>D - X\<bar>" by linarith
  also have "\<dots> \<le> u32 * (g * ((1 + u32) * P + E) + \<bar>bv\<bar>) + ((g * (1 + u32) - 1) * P + g * E)"
    using er' DX by linarith
  also have "\<dots> = (g * (1 + u32) * (1 + u32) - 1) * P + u32 * \<bar>bv\<bar> + g * (1 + u32) * E"
    by (simp add: algebra_simps)
  also have "\<dots> \<le> (g * (1 + u32) * (1 + u32) - 1) * P + (g * (1 + u32) * (1 + u32) - 1) * \<bar>bv\<bar>
      + g * (1 + u32) * E"
    using uB by linarith
  also have "\<dots> = (g * (1 + u32) * (1 + u32) - 1) * (P + \<bar>bv\<bar>) + g * (1 + u32) * E"
    by (simp add: algebra_simps)
  finally have fin: "\<bar>r - (X + bv)\<bar> \<le> (g * (1 + u32) * (1 + u32) - 1) * (P + \<bar>bv\<bar>) + g * (1 + u32) * E" .
  have lhs: "add32 (foldl add32 (Fin 0) (map (\<lambda>j. mul32 (s j) (w j)) [0..<H])) b = Fin r"
    unfolding prods D b by (simp add: add32_def r)
  have "\<bar>r - (sum_list (map (\<lambda>j. rval (s j) * rval (w j)) [0..<H]) + rval b)\<bar>
       \<le> ((1 + u32) ^ (H + 2) - 1) * (sum_list (map (\<lambda>j. \<bar>rval (s j) * rval (w j)\<bar>) [0..<H]) + \<bar>rval b\<bar>)
          + (1 + u32) ^ (H + 1) * real H / 2 ^ 150"
    using fin by (simp add: g_def X_def x_def P_def E_def eta_def b mult_ac)
  with lhs fr show ?thesis by blast
qed

section \<open>Properties of the forward passes\<close>

lemma elem_matmul_t:
  assumes x: "shape x = [n, k]" and w: "shape w = [c, k]"
  shows "\<exists>y. matmul_t x w = Inr y \<and> shape y = [n, c] \<and>
    (\<forall>i<n. \<forall>q<c. elem y [i, q] =
       foldl add32 (Fin 0) (map (\<lambda>j. mul32 (elem x [i, j]) (elem w [q, j])) [0..<k]))"
  by (simp add: matmul_t_def x w elem_tabulate)

lemma broadcast_bias: "broadcast_shapes [n, c] [c] = Some [n, c]"
  by (simp add: broadcast_shapes_def)

lemma linear_fwd_2d:
  assumes x: "shape x = [n, k]" and l: "is_linear k c l"
  shows "\<exists>y. linear_fwd l x = Inr y \<and> shape y = [n, c] \<and> well_shaped y \<and>
    (\<forall>i<n. \<forall>q<c. elem y [i, q] =
       add32 (foldl add32 (Fin 0) (map (\<lambda>j. mul32 (elem x [i, j]) (elem (weight l) [q, j])) [0..<k]))
             (elem (bias l) [q]))"
proof -
  from l have w: "shape (weight l) = [c, k]" and b: "shape (bias l) = [c]"
    by (simp_all add: is_linear_def)
  from elem_matmul_t [OF x w] obtain y where
    y: "matmul_t x (weight l) = Inr y" and sy: "shape y = [n, c]" and
    ey: "\<forall>i<n. \<forall>q<c. elem y [i, q] =
       foldl add32 (Fin 0) (map (\<lambda>j. mul32 (elem x [i, j]) (elem (weight l) [q, j])) [0..<k])"
    by blast
  define z where "z = tabulate [n, c] (\<lambda>idx. add32 (elem y (bsrc [n, c] idx)) (elem (bias l) (bsrc [c] idx)))"
  have lz: "linear_fwd l x = Inr z"
    by (simp add: linear_fwd_def y binop_def sy b broadcast_bias z_def)
  have "elem z [i, q] =
       add32 (foldl add32 (Fin 0) (map (\<lambda>j. mul32 (elem x [i, j]) (elem (weight l) [q, j])) [0..<k]))
             (elem (bias l) [q])" if "i < n" "q < c" for i q
    using that ey by (simp add: z_def elem_tabulate bsrc_same) (simp add: bsrc_def bidx_same)
  then show ?thesis using lz by (auto simp: z_def)
qed

lemma classification_forward_eq:
  "classification_forward tok enc self sentences =
     (case forward tok enc self sentences of
        Inl e \<Rightarrow> Inl e
      | Inr S \<Rightarrow> linear_fwd (classifier self) S)"
  by (simp add: classification_forward_def forward_def split: sum.splits)

lemma is_linear_nn_Linear: "is_linear k c (nn_Linear k c w_init b_init)"
  by (simp add: is_linear_def nn_Linear_def)

lemma linear_fwd_bound:
  assumes x: "shape x = [n, k]" and l: "is_linear k c l"
  shows "\<exists>y. linear_fwd l x = Inr y \<and> shape y = [n, c] \<and> length (data y) = n * c \<and>
    (\<forall>i<n. \<forall>q<c.
       (\<forall>j<k. is_f32 (elem x [i, j]) \<and> is_f32 (elem (weight l) [q, j])) \<and> is_f32 (elem (bias l) [q]) \<and>
       (1 + u32) ^ (k + 1) *
         (sum_list (map (\<lambda>j. \<bar>rval (elem x [i, j]) * rval (elem (weight l) [q, j])\<bar>) [0..<k])
          + real k / 2 ^ 150) + \<bar>rval (elem (bias l) [q])\<bar> < 2 ^ 127 \<longrightarrow>
       (\<exists>r. elem y [i, q] = Fin r \<and> is_f32 (Fin r) \<and>
          \<bar>r - (sum_list (map (\<lambda>j. rval (elem x [i, j]) * rval (elem (weight l) [q, j])) [0..<k])
                + rval (elem (bias l) [q]))\<bar>
            \<le> ((1 + u32) ^ (k + 2) - 1) *
                 (sum_list (map (\<lambda>j. \<bar>rval (elem x [i, j]) * rval (elem (weight l) [q, j])\<bar>) [0..<k])
                  + \<bar>rval (elem (bias l) [q])\<bar>)
               + (1 + u32) ^ (k + 1) * real k / 2 ^ 150))"
proof -
  from linear_fwd_2d [OF x l] obtain y where y: "linear_fwd l x = Inr y" and sy: "shape y = [n, c]"
    and ws: "well_shaped y"
    and ey: "\<forall>i<n. \<forall>q<c. elem y [i, q] =
       add32 (foldl add32 (Fin 0) (map (\<lambda>j. mul32 (elem x [i, j]) (elem (weight l) [q, j])) [0..<k]))
             (elem (bias l) [q])"
    by blast
  have len: "length (data y) = n * c" using ws sy by (simp add: well_shaped_def)
  have "\<exists>r. elem y [i, q] = Fin r \<and> is_f32 (Fin r) \<and>
          \<bar>r - (sum_list (map (\<lambda>j. rval (elem x [i, j]) * rval (elem (weight l) [q, j])) [0..<k])
                + rval (elem (bias l) [q]))\<bar>
            \<le> ((1 + u32) ^ (k + 2) - 1) *
                 (sum_list (map (\<lambda>j. \<bar>rval (elem x [i, j]) * rval (elem (weight l) [q, j])\<bar>) [0..<k])
                  + \<bar>rval (elem (bias l) [q])\<bar>)
               + (1 + u32) ^ (k + 1) * real k / 2 ^ 150"
    if i: "i < n" and q: "q < c"
      and f: "\<forall>j<k. is_f32 (elem x [i, j]) \<and> is_f32 (elem (weight l) [q, j])"
      and fb: "is_f32 (elem (bias l) [q])"
      and room: "(1 + u32) ^ (k + 1) *
         (sum_list (map (\<lambda>j. \<bar>rval (elem x [i, j]) * rval (elem (weight l) [q, j])\<bar>) [0..<k])
          + real k / 2 ^ 150) + \<bar>rval (elem (bias l) [q])\<bar> < 2 ^ 127"
    for i q
    using dot32_bound [where s = "\<lambda>j. elem x [i, j]" and w = "\<lambda>j. elem (weight l) [q, j]", OF f fb room]
      ey i q by (auto simp: is_f32_iff)
  then show ?thesis using y sy len by blast
qed

lemma round32_int: "0 \<le> k \<Longrightarrow> k \<le> 2 ^ 24 \<Longrightarrow> round32 (real_of_int k) = Fin (real_of_int k)"
  by (rule round32_exact) (rule f32_real_int)

lemma round32_small [simp]:
  "round32 2 = Fin 2" "round32 3 = Fin 3" "round32 4 = Fin 4" "round32 5 = Fin 5" "round32 6 = Fin 6"
  using round32_int [of 2] round32_int [of 3] round32_int [of 4] round32_int [of 5] round32_int [of 6]
  by simp_all

lemma of_mask32_2 [simp]: "of_mask32 2 = Fin 2"
  by (simp add: of_mask32_def)

lemma max_eps32 [simp]: "max 1 eps32 = 1" "max 2 eps32 = 2"
  using eps32_less_1 by (simp_all add: max_def)

lemma tensor_eq_data:
  fixes S :: "'a tensor"
  assumes "shape S = shp" and "well_shaped S" and "length xs = prod_list shp"
    and "\<forall>k<prod_list shp. data S ! k = xs ! k"
  shows "S = \<lparr>shape = shp, data = xs\<rparr>"
proof -
  have "data S = xs"
    using assms by (intro nth_equalityI) (simp_all add: well_shaped_def)
  with assms(1) show ?thesis by (cases S) simp
qed

lemma stub_inputs:
  "stub_tokenizer () sample_sentences =
     Inr \<lparr>input_ids = \<lparr>shape = [2, 2], data = [7, 7, 7, 7]\<rparr>,
          attention_mask = \<lparr>shape = [2, 2], data = [1, 1, 1, 1]\<rparr>\<rparr>"
  by (simp add: stub_tokenizer_def sample_sentences_def eval_nat_numeral)

lemma stub_hidden:
  "stub_encoder () \<lparr>input_ids = \<lparr>shape = [2, 2], data = [7, 7, 7, 7]\<rparr>,
          attention_mask = \<lparr>shape = [2, 2], data = [1, 1, 1, 1]\<rparr>\<rparr> =
     Inr \<lparr>shape = [2, 2, 2], data = [Fin 1, Fin 3, Fin 1, Fin 3, Fin 1, Fin 3, Fin 1, Fin 3]\<rparr>"
  by (simp add: stub_encoder_def)

lemma stub_pooled:
  "mean_pooling_f32 \<lparr>shape = [2, 2, 2], data = [Fin 1, Fin 3, Fin 1, Fin 3, Fin 1, Fin 3, Fin 1, Fin 3]\<rparr>
       \<lparr>shape = [2, 2], data = [1, 1, 1, 1]\<rparr> =
     Inr \<lparr>shape = [2, 2], data = [Fin 1, Fin 3, Fin 1, Fin 3]\<rparr>"
proof -
  let ?E = "\<lparr>shape = [2, 2, 2], data = [Fin 1, Fin 3, Fin 1, Fin 3, Fin 1, Fin 3, Fin 1, Fin 3]\<rparr>"
  let ?M = "\<lparr>shape = [2, 2], data = [1 :: int, 1, 1, 1]\<rparr>"
  have E: "shape ?E = [2, 2, 2]" and M: "shape ?M = [2, 2]" by simp_all
  from mean_pooling_f32_3d [OF E M] obtain S where
    mp: "mean_pooling_f32 ?E ?M = Inr S" and sh: "shape S = [2, 2]" and ws: "well_shaped S"
    and el: "\<forall>b<2. \<forall>h<2. elem S [b, h] =
       div32 (foldl add32 (Fin 0) (map (\<lambda>t. mul32 (elem ?E [b, t, h]) (of_mask32 (elem ?M [b, t]))) [0..<2]))
             (case of_mask32 (sum_list (map (\<lambda>t. elem ?M [b, t]) [0..<2])) of
                Fin r \<Rightarrow> Fin (max r eps32) | v \<Rightarrow> v)"
    by blast
  have "\<forall>k<prod_list [2, 2]. data S ! k = [Fin 1, Fin 3, Fin 1, Fin 3] ! k"
    using el by (simp add: elem_def sh All_less_Suc eval_nat_numeral upt_rec mul32_def add32_def div32_def)
  from tensor_eq_data [OF sh ws _ this] mp show ?thesis by simp
qed

lemma stub_forward:
  "forward stub_tokenizer stub_encoder stub_model sample_sentences =
     Inr \<lparr>shape = [2, 2], data = [Fin 1, Fin 3, Fin 1, Fin 3]\<rparr>"
  by (simp add: forward_def stub_model_def stub_inputs stub_hidden stub_pooled)

lemma stub_logits:
  "linear_fwd (classifier stub_model) \<lparr>shape = [2, 2], data = [Fin 1, Fin 3, Fin 1, Fin 3]\<rparr> =
     Inr \<lparr>shape = [2, 3], data = [Fin 1, Fin 3, Fin 5, Fin 1, Fin 3, Fin 5]\<rparr>"
proof -
  let ?S = "\<lparr>shape = [2, 2], data = [Fin 1, Fin 3, Fin 1, Fin 3]\<rparr>"
  have S: "shape ?S = [2, 2]" by simp
  have l: "is_linear 2 3 (classifier stub_model)"
    by (simp add: is_linear_def well_shaped_def stub_model_def)
  from linear_fwd_2d [OF S l] obtain L where
    lf: "linear_fwd (classifier stub_model) ?S = Inr L" and sh: "shape L = [2, 3]" and ws: "well_shaped L"
    and el: "\<forall>i<2. \<forall>q<3. elem L [i, q] =
       add32 (foldl add32 (Fin 0)
                (map (\<lambda>j. mul32 (elem ?S [i, j]) (elem (weight (classifier stub_model)) [q, j])) [0..<2]))
             (elem (bias (classifier stub_model)) [q])"
    by blast
  have "\<forall>k<prod_list [2, 3]. data L ! k = [Fin 1, Fin 3, Fin 5, Fin 1, Fin 3, Fin 5] ! k"
    using el by (simp add: elem_def sh All_less_Suc eval_nat_numeral upt_rec mul32_def add32_def stub_model_def)
  from tensor_eq_data [OF sh ws _ this] lf show ?thesis by simp
qed

lemma stub_classification_forward:
  "classification_forward stub_tokenizer stub_encoder stub_model sample_sentences =
     Inr \<lparr>shape = [2, 3], data = [Fin 1, Fin 3, Fin 5, Fin 1, Fin 3, Fin 5]\<rparr>"
  by (simp only: classification_forward_eq stub_forward sum.case stub_logits)

lemma f32_one_ulp: "round32 (8388609 / 8388608) = Fin (8388609 / 8388608)"
  by (rule round32_exact) (rule f32_realI [of 8388609 126], simp_all)

lemma round32_tie: "round32 (16777217 / 8388608) = Fin 2"
proof -
  have "round32 (16777217 / 8388608) =
      Fin (real_of_int (rne ((16777217 / 8388608) * 2 ^ 149 / 2 ^ 127)) * 2 ^ 127 / 2 ^ 149)"
    by (rule round32_eval) simp_all
  also have "(16777217 / 8388608 :: real) * 2 ^ 149 / 2 ^ 127 = 16777217 / 2" by simp
  also have "rne (16777217 / 2) = 8388608" by (simp add: rne_def Let_def)
  also have "real_of_int 8388608 * 2 ^ 127 / 2 ^ 149 = 2" by simp
  finally show ?thesis .
qed

lemma one_class_forward:
  "forward stub_tokenizer stub_encoder stub_model_one_class sample_sentences =
     Inr \<lparr>shape = [2, 2], data = [Fin 1, Fin 3, Fin 1, Fin 3]\<rparr>"
  by (simp add: forward_def stub_model_one_class_def stub_inputs stub_hidden stub_pooled)

lemma one_class_linear: "is_linear 2 1 (classifier stub_model_one_class)"
  by (simp add: is_linear_def well_shaped_def stub_model_one_class_def)

lemma one_class_logits:
  "linear_fwd (classifier stub_model_one_class) \<lparr>shape = [2, 2], data = [Fin 1, Fin 3, Fin 1, Fin 3]\<rparr> =
     Inr \<lparr>shape = [2, 1], data = [Fin 2, Fin 2]\<rparr>"
proof -
  let ?S = "\<lparr>shape = [2, 2], data = [Fin 1, Fin 3, Fin 1, Fin 3]\<rparr>"
  have S: "shape ?S = [2, 2]" by simp
  from linear_fwd_2d [OF S one_class_linear] obtain L where
    lf: "linear_fwd (classifier stub_model_one_class) ?S = Inr L" and sh: "shape L = [2, 1]"
    and ws: "well_shaped L"
    and el: "\<forall>i<2. \<forall>q<1. elem L [i, q] =
       add32 (foldl add32 (Fin 0)
                (map (\<lambda>j. mul32 (elem ?S [i, j]) (elem (weight (classifier stub_model_one_class)) [q, j])) [0..<2]))
             (elem (bias (classifier stub_model_one_class)) [q])"
    by blast
  have "\<forall>k<prod_list [2, 1]. data L ! k = [Fin 2, Fin 2] ! k"
    using el by (simp add: elem_def sh All_less_Suc eval_nat_numeral upt_rec mul32_def add32_def
        stub_model_one_class_def f32_one_ulp round32_tie)
  from tensor_eq_data [OF sh ws _ this] lf show ?thesis by simp
qed

text \<open>
  Claim C5, amended. The classification forward pass is the embedding-only forward pass
  followed by the linear layer. The layer that the constructor makes has \<open>W\<close> of shape
  \<open>(num_classes, hidden_size)\<close> and \<open>b\<close> of shape \<open>(num_classes)\<close>, each with that many
  elements. With such \<open>W\<close> of shape \<open>(C, H)\<close> and \<open>b\<close> of shape \<open>(C)\<close>, the layer returns
  logits of shape \<open>(B, C)\<close> on an embedding batch \<open>S\<close> of shape \<open>(B, H)\<close>, and where the
  entries of row \<open>i\<close> of \<open>S\<close>, of row \<open>c\<close> of \<open>W\<close> and \<open>b[c]\<close> are finite float32 values and
  no intermediate result overflows, the logit \<open>[i, c]\<close> is a finite float32 value that
  differs from the real number \<open>(\<Sum>j. S[i, j] * W[c, j]) + b[c]\<close> by at most
  \<open>((1 + u)\<^sup>H\<^sup>+\<^sup>2 - 1) * ((\<Sum>j. \<bar>S[i, j] * W[c, j]\<bar>) + \<bar>b[c]\<bar>) + (1 + u)\<^sup>H\<^sup>+\<^sup>1 * H * 2\<^sup>-\<^sup>1\<^sup>5\<^sup>0\<close>,
  with \<open>u = 2\<^sup>-\<^sup>2\<^sup>4\<close>. When the tokenizer returns a mask of shape \<open>(B, T)\<close> and the encoder hidden
  states of shape \<open>(B, T, H)\<close>, the logits have shape \<open>(B, C)\<close>.
\<close>

theorem classification_forward_linear:
  "classification_forward tok enc self sentences =
       (case forward tok enc self sentences of
          Inl e \<Rightarrow> Inl e
        | Inr S \<Rightarrow> linear_fwd (classifier self) S) \<and>
   is_linear hidden_size num_classes
     (classifier (SentenceClassificationTransformer enc0 tok0 hidden_size num_classes w_init b_init)) \<and>
   (is_linear H C (classifier self) \<longrightarrow>
     (\<forall>S B. shape S = [B, H] \<longrightarrow>
        (\<exists>L. linear_fwd (classifier self) S = Inr L \<and> shape L = [B, C] \<and> length (data L) = B * C \<and>
          (\<forall>i<B. \<forall>c<C.
             (\<forall>j<H. is_f32 (elem S [i, j]) \<and> is_f32 (elem (weight (classifier self)) [c, j])) \<and>
             is_f32 (elem (bias (classifier self)) [c]) \<and>
             (1 + u32) ^ (H + 1) *
               (sum_list (map (\<lambda>j. \<bar>rval (elem S [i, j]) * rval (elem (weight (classifier self)) [c, j])\<bar>) [0..<H])
                + real H / 2 ^ 150) + \<bar>rval (elem (bias (classifier self)) [c])\<bar> < 2 ^ 127 \<longrightarrow>
             (\<exists>r. elem L [i, c] = Fin r \<and> is_f32 (Fin r) \<and>
                \<bar>r - (sum_list (map (\<lambda>j. rval (elem S [i, j]) * rval (elem (weight (classifier self)) [c, j])) [0..<H])
                      + rval (elem (bias (classifier self)) [c]))\<bar>
                  \<le> ((1 + u32) ^ (H + 2) - 1) *
                       (sum_list (map (\<lambda>j. \<bar>rval (elem S [i, j]) * rval (elem (weight (classifier self)) [c, j])\<bar>) [0..<H])
                        + \<bar>rval (elem (bias (classifier self)) [c])\<bar>)
                     + (1 + u32) ^ (H + 1) * real H / 2 ^ 150)))) \<and>
     (\<forall>inputs hs B T.
        tok (tokenizer self) sentences = Inr inputs \<and> shape (attention_mask inputs) = [B, T] \<and>
        enc (encoder self) inputs = Inr hs \<and> shape hs = [B, T, H] \<longrightarrow>
        (\<exists>L. classification_forward tok enc self sentences = Inr L \<and> shape L = [B, C] \<and>
           length (data L) = B * C)))"
proof (intro conjI allI impI)
  show "classification_forward tok enc self sentences =
       (case forward tok enc self sentences of
          Inl e \<Rightarrow> Inl e
        | Inr S \<Rightarrow> linear_fwd (classifier self) S)"
    by (rule classification_forward_eq)
next
  show "is_linear hidden_size num_classes
     (classifier (SentenceClassificationTransformer enc0 tok0 hidden_size num_classes w_init b_init))"
    by (simp add: SentenceClassificationTransformer_def is_linear_nn_Linear)
next
  fix S :: "fval tensor" and B
  assume l: "is_linear H C (classifier self)" and "shape S = [B, H]"
  from linear_fwd_bound [OF this(2) l]
  show "\<exists>L. linear_fwd (classifier self) S = Inr L \<and> shape L = [B, C] \<and> length (data L) = B * C \<and>
          (\<forall>i<B. \<forall>c<C.
             (\<forall>j<H. is_f32 (elem S [i, j]) \<and> is_f32 (elem (weight (classifier self)) [c, j])) \<and>
             is_f32 (elem (bias (classifier self)) [c]) \<and>
             (1 + u32) ^ (H + 1) *
               (sum_list (map (\<lambda>j. \<bar>rval (elem S [i, j]) * rval (elem (weight (classifier self)) [c, j])\<bar>) [0..<H])
                + real H / 2 ^ 150) + \<bar>rval (elem (bias (classifier self)) [c])\<bar> < 2 ^ 127 \<longrightarrow>
             (\<exists>r. elem L [i, c] = Fin r \<and> is_f32 (Fin r) \<and>
                \<bar>r - (sum_list (map (\<lambda>j. rval (elem S [i, j]) * rval (elem (weight (classifier self)) [c, j])) [0..<H])
                      + rval (elem (bias (classifier self)) [c]))\<bar>
                  \<le> ((1 + u32) ^ (H + 2) - 1) *
                       (sum_list (map (\<lambda>j. \<bar>rval (elem S [i, j]) * rval (elem (weight (classifier self)) [c, j])\<bar>) [0..<H])
                        + \<bar>rval (elem (bias (classifier self)) [c])\<bar>)
                     + (1 + u32) ^ (H + 1) * real H / 2 ^ 150))" .
next
  fix inputs hs B T
  assume l: "is_linear H C (classifier self)"
    and a: "tok (tokenizer self) sentences = Inr inputs \<and> shape (attention_mask inputs) = [B, T] \<and>
        enc (encoder self) inputs = Inr hs \<and> shape hs = [B, T, H]"
  then obtain S where S: "mean_pooling_f32 hs (attention_mask inputs) = Inr S" and sh: "shape S = [B, H]"
    using mean_pooling_f32_3d [of hs B T H "attention_mask inputs"] by auto
  from linear_fwd_bound [OF sh l] obtain L where "linear_fwd (classifier self) S = Inr L" "shape L = [B, C]"
    "length (data L) = B * C"
    by blast
  then show "\<exists>L. classification_forward tok enc self sentences = Inr L \<and> shape L = [B, C] \<and>
      length (data L) = B * C"
    using a S by (simp add: classification_forward_def)
qed

theorem classification_forward_linear_witness:
  "\<exists>L r. classification_forward stub_tokenizer stub_encoder stub_model sample_sentences = Inr L \<and>
     shape L = [2, 3] \<and> length (data L) = 6 \<and> elem L [0, 2] = Fin r \<and>
     \<bar>r - 5\<bar> \<le> ((1 + u32) ^ 4 - 1) * 5 + (1 + u32) ^ 3 * 2 / 2 ^ 150"
proof -
  let ?S = "\<lparr>shape = [2, 2], data = [Fin 1, Fin 3, Fin 1, Fin 3]\<rparr>"
  have l: "is_linear 2 3 (classifier stub_model)"
    by (simp add: is_linear_def well_shaped_def stub_model_def)
  have S: "shape ?S = [2, 2]" by simp
  note layer = classification_forward_linear [where self = stub_model and H = 2 and C = 3,
      THEN conjunct2, THEN conjunct2, rule_format, OF l, THEN conjunct1, rule_format, OF S]
  then obtain L where lf: "linear_fwd (classifier stub_model) ?S = Inr L" and sh: "shape L = [2, 3]"
    and len: "length (data L) = 2 * 3"
    and el: "\<forall>i<2. \<forall>c<3.
             (\<forall>j<2. is_f32 (elem ?S [i, j]) \<and> is_f32 (elem (weight (classifier stub_model)) [c, j])) \<and>
             is_f32 (elem (bias (classifier stub_model)) [c]) \<and>
             (1 + u32) ^ (2 + 1) *
               (sum_list (map (\<lambda>j. \<bar>rval (elem ?S [i, j]) * rval (elem (weight (classifier stub_model)) [c, j])\<bar>) [0..<2])
                + real 2 / 2 ^ 150) + \<bar>rval (elem (bias (classifier stub_model)) [c])\<bar> < 2 ^ 127 \<longrightarrow>
             (\<exists>r. elem L [i, c] = Fin r \<and> is_f32 (Fin r) \<and>
                \<bar>r - (sum_list (map (\<lambda>j. rval (elem ?S [i, j]) * rval (elem (weight (classifier stub_model)) [c, j])) [0..<2])
                      + rval (elem (bias (classifier stub_model)) [c]))\<bar>
                  \<le> ((1 + u32) ^ (2 + 2) - 1) *
                       (sum_list (map (\<lambda>j. \<bar>rval (elem ?S [i, j]) * rval (elem (weight (classifier stub_model)) [c, j])\<bar>) [0..<2])
                        + \<bar>rval (elem (bias (classifier stub_model)) [c])\<bar>)
                     + (1 + u32) ^ (2 + 1) * real 2 / 2 ^ 150)"
    by blast
  have f1: "is_f32 (Fin 1)" using f32_real_int [of 1] by (simp add: is_f32_iff)
  have f3: "is_f32 (Fin 3)" using f32_real_int [of 3] by (simp add: is_f32_iff)
  have f: "\<forall>j<2. is_f32 (elem ?S [0, j]) \<and> is_f32 (elem (weight (classifier stub_model)) [2, j])"
    by (simp add: elem_def stub_model_def All_less_Suc eval_nat_numeral f1 f3)
  have fb: "is_f32 (elem (bias (classifier stub_model)) [2])"
    by (simp add: elem_def stub_model_def f1)
  have room: "(1 + u32) ^ (2 + 1) *
               (sum_list (map (\<lambda>j. \<bar>rval (elem ?S [0, j]) * rval (elem (weight (classifier stub_model)) [2, j])\<bar>) [0..<2])
                + real 2 / 2 ^ 150) + \<bar>rval (elem (bias (classifier stub_model)) [2])\<bar> < 2 ^ 127"
    by (simp add: elem_def stub_model_def upt_rec u32_def power3_eq_cube)
  have i: "(0::nat) < 2" and c: "(2::nat) < 3" by simp_all
  from el [rule_format, OF i c] f fb room obtain r where r: "elem L [0, 2] = Fin r"
    and er: "\<bar>r - (sum_list (map (\<lambda>j. rval (elem ?S [0, j]) * rval (elem (weight (classifier stub_model)) [2, j])) [0..<2])
                      + rval (elem (bias (classifier stub_model)) [2]))\<bar>
                  \<le> ((1 + u32) ^ (2 + 2) - 1) *
                       (sum_list (map (\<lambda>j. \<bar>rval (elem ?S [0, j]) * rval (elem (weight (classifier stub_model)) [2, j])\<bar>) [0..<2])
                        + \<bar>rval (elem (bias (classifier stub_model)) [2])\<bar>)
                     + (1 + u32) ^ (2 + 1) * real 2 / 2 ^ 150"
    by blast
  have "\<bar>r - 5\<bar> \<le> ((1 + u32) ^ 4 - 1) * 5 + (1 + u32) ^ 3 * 2 / 2 ^ 150"
    using er by (simp add: elem_def stub_model_def upt_rec)
  moreover have "classification_forward stub_tokenizer stub_encoder stub_model sample_sentences = Inr L"
    by (simp only: classification_forward_eq stub_forward sum.case lf)
  ultimately show ?thesis using sh len r by (intro exI [of _ L] exI [of _ r]) simp
qed

theorem classification_forward_rounding_counterexample:
  "is_linear 2 1 (classifier stub_model_one_class) \<and>
   is_f32 (Fin (8388609 / 8388608)) \<and> is_f32 (Fin 0) \<and> is_f32 (Fin 1) \<and> is_f32 (Fin 3) \<and>
   forward stub_tokenizer stub_encoder stub_model_one_class sample_sentences =
     Inr \<lparr>shape = [2, 2], data = [Fin 1, Fin 3, Fin 1, Fin 3]\<rparr> \<and>
   classification_forward stub_tokenizer stub_encoder stub_model_one_class sample_sentences =
     Inr \<lparr>shape = [2, 1], data = [Fin 2, Fin 2]\<rparr> \<and>
   (1 * (8388609 / 8388608) + 3 * 0 + 1 :: real) \<noteq> 2"
proof -
  have f1: "is_f32 (Fin 1)" using f32_real_int [of 1] by (simp add: is_f32_iff)
  have f3: "is_f32 (Fin 3)" using f32_real_int [of 3] by (simp add: is_f32_iff)
  have f0: "is_f32 (Fin 0)" by (simp add: is_f32_iff)
  have fa: "is_f32 (Fin (8388609 / 8388608))" by (simp only: is_f32_def fval.case f32_one_ulp)
  have cf: "classification_forward stub_tokenizer stub_encoder stub_model_one_class sample_sentences =
     Inr \<lparr>shape = [2, 1], data = [Fin 2, Fin 2]\<rparr>"
    by (simp only: classification_forward_eq one_class_forward sum.case one_class_logits)
  have ne: "(1 * (8388609 / 8388608) + 3 * 0 + 1 :: real) \<noteq> 2" by simp
  show ?thesis by (intro conjI one_class_linear fa f0 f1 f3 one_class_forward cf ne)
qed

section \<open>The order of the training step\<close>

text \<open>
  Claim C6, amended. When the forward pass and the loss succeed and the optimizer was
  made for \<^verbatim>\<open>model.parameters()\<close>, the training step performs, in this order: the
  classification forward pass, the loss between the logits and the labels, the clearing
  of the accumulated gradients, the computation of the gradients of the loss with respect
  to \<open>W\<close>, \<open>b\<close> and the encoder's parameters, one optimizer update. The gradients are
  those of the loss that the first two operations computed, taken at the model before the
  step. The update is given, for each of \<open>W\<close>, \<open>b\<close> and the encoder's parameters, the
  gradient of this step alone, whatever was accumulated before, and after the step these
  gradients are still accumulated: nothing clears them.
\<close>

theorem training_step_order:
  assumes fwd: "classification_forward tok enc (model st) sample_sentences = Inr class_logits"
    and loss: "loss_fn class_logits sentence_labels = Inr classification_loss"
    and opt: "params (optimizer st) = parameters"
  shows "\<exists>st'. training_step tok enc loss_fn autograd gadd opt_step st
            = Inr (class_logits, classification_loss, st') \<and>
     trace st' = trace st @ [Forward, Loss, ZeroGrad, Backward, OptimizerStep] \<and>
     script_loss tok enc loss_fn (model st) = Inr classification_loss \<and>
     grad st' ClassifierWeight = Some (autograd (script_loss tok enc loss_fn) (model st) ClassifierWeight) \<and>
     grad st' ClassifierBias = Some (autograd (script_loss tok enc loss_fn) (model st) ClassifierBias) \<and>
     grad st' EncoderParameters = Some (autograd (script_loss tok enc loss_fn) (model st) EncoderParameters) \<and>
     (model st', optimizer st') =
       opt_step (optimizer st)
         (\<lambda>p. Some (autograd (script_loss tok enc loss_fn) (model st) p)) (model st)"
proof -
  have all: "p \<in> set parameters" for p
    by (cases p) (simp_all add: parameters_def)
  show ?thesis
    by (simp add: training_step_def script_loss_def fwd loss Let_def zero_grad_def backward_def
        step_def opt all split: prod.splits)
qed

theorem training_step_order_witness:
  "\<exists>st'. training_step stub_tokenizer stub_encoder stub_loss stub_autograd (+) stub_opt_step stub_state =
     Inr (\<lparr>shape = [2, 3], data = [Fin 1, Fin 3, Fin 5, Fin 1, Fin 3, Fin 5]\<rparr>, Fin 1, st') \<and>
     trace st' = [Forward, Loss, ZeroGrad, Backward, OptimizerStep] \<and>
     grad st' ClassifierWeight = Some 2 \<and> grad st' ClassifierBias = Some 3 \<and>
     grad st' EncoderParameters = Some 1 \<and>
     model st' = stub_model \<and> opt_state (optimizer st') = [Some 1, Some 2, Some 3]"
proof -
  have fwd: "classification_forward stub_tokenizer stub_encoder (model stub_state) sample_sentences =
      Inr \<lparr>shape = [2, 3], data = [Fin 1, Fin 3, Fin 5, Fin 1, Fin 3, Fin 5]\<rparr>"
    by (simp add: stub_state_def script_init_def stub_classification_forward)
  have loss: "stub_loss \<lparr>shape = [2, 3], data = [Fin 1, Fin 3, Fin 5, Fin 1, Fin 3, Fin 5]\<rparr> sentence_labels = Inr (Fin 1)"
    by (simp add: stub_loss_def)
  have opt: "params (optimizer stub_state) = parameters"
    by (simp add: stub_state_def script_init_def AdamW_def)
  from training_step_order [where tok = stub_tokenizer and enc = stub_encoder and loss_fn = stub_loss
      and st = stub_state and autograd = stub_autograd and gadd = "(+)" and opt_step = stub_opt_step,
      OF fwd loss opt]
  obtain st' where r: "training_step stub_tokenizer stub_encoder stub_loss stub_autograd (+) stub_opt_step stub_state
       = Inr (\<lparr>shape = [2, 3], data = [Fin 1, Fin 3, Fin 5, Fin 1, Fin 3, Fin 5]\<rparr>, Fin 1, st')"
    and t: "trace st' = trace stub_state @ [Forward, Loss, ZeroGrad, Backward, OptimizerStep]"
    and sl: "script_loss stub_tokenizer stub_encoder stub_loss (model stub_state) = Inr (Fin 1)"
    and gw: "grad st' ClassifierWeight = Some (stub_autograd (script_loss stub_tokenizer stub_encoder stub_loss) (model stub_state) ClassifierWeight)"
    and gb: "grad st' ClassifierBias = Some (stub_autograd (script_loss stub_tokenizer stub_encoder stub_loss) (model stub_state) ClassifierBias)"
    and ge: "grad st' EncoderParameters = Some (stub_autograd (script_loss stub_tokenizer stub_encoder stub_loss) (model stub_state) EncoderParameters)"
    and u: "(model st', optimizer st') = stub_opt_step (optimizer stub_state)
         (\<lambda>p. Some (stub_autograd (script_loss stub_tokenizer stub_encoder stub_loss) (model stub_state) p)) (model stub_state)"
    by blast
  have t': "trace st' = [Forward, Loss, ZeroGrad, Backward, OptimizerStep]"
    using t by (simp add: stub_state_def script_init_def)
  have gw': "grad st' ClassifierWeight = Some 2" using gw sl by (simp add: stub_autograd_def)
  have gb': "grad st' ClassifierBias = Some 3" using gb sl by (simp add: stub_autograd_def)
  have ge': "grad st' EncoderParameters = Some 1" using ge sl by (simp add: stub_autograd_def)
  have m: "model st' = stub_model" and o: "opt_state (optimizer st') = [Some 1, Some 2, Some 3]"
    using u sl by (simp_all add: stub_opt_step_def stub_state_def script_init_def AdamW_def
        parameters_def stub_autograd_def)
  show ?thesis by (rule exI [of _ st']) (intro conjI r t' gw' gb' ge' m o)
qed

theorem training_step_order_counterexample:
  "\<exists>st'. training_step stub_tokenizer stub_encoder stub_loss stub_autograd (+) stub_opt_step stub_state =
     Inr (\<lparr>shape = [2, 3], data = [Fin 1, Fin 3, Fin 5, Fin 1, Fin 3, Fin 5]\<rparr>, Fin 1, st') \<and>
     trace st' = [Forward, Loss, ZeroGrad, Backward, OptimizerStep] \<and>
     trace st' \<noteq> [Forward, Loss, Backward, OptimizerStep, ZeroGrad] \<and>
     grad st' ClassifierWeight \<noteq> None \<and> grad st' ClassifierBias \<noteq> None \<and>
     grad st' EncoderParameters \<noteq> None"
  by (simp add: training_step_def script_loss_def stub_classification_forward stub_loss_def Let_def
      zero_grad_def backward_def step_def stub_opt_step_def stub_state_def script_init_def AdamW_def
      split: prod.splits)

end
